theory Spec2Isabelle
  imports Main "HOL-Library.Sublist"
begin

section \<open>Strings and numbers of the JavaScript runtime\<close>

text \<open>
  A JavaScript string is a sequence of UTF-16 code units; a code unit is modelled as the
  natural number it denotes. \<open>js\<close> embeds an ASCII literal of the source.
\<close>

type_synonym jsstring = "nat list"

definition js :: "string \<Rightarrow> jsstring" where
  "js s = map of_char s"

text \<open>\<open>String.prototype.includes\<close>: the argument occurs as a contiguous substring.\<close>

fun includesStr :: "jsstring \<Rightarrow> jsstring \<Rightarrow> bool" where
  "includesStr [] sub = (sub = [])"
| "includesStr (c # cs) sub = (prefix sub (c # cs) \<or> includesStr cs sub)"

text \<open>
  \<open>String.prototype.trim\<close> strips the code units of the productions WhiteSpace and
  LineTerminator (ECMA-262) from both ends: TAB, LF, VT, FF, CR, SP, NBSP, U+1680,
  U+2000 to U+200A, U+2028, U+2029, U+202F, U+205F, U+3000 and U+FEFF.
\<close>

definition isWhiteSpace :: "nat \<Rightarrow> bool" where
  "isWhiteSpace c =
     ((9 \<le> c \<and> c \<le> 13) \<or> c = 32 \<or> c = 160 \<or> c = 5760 \<or> (8192 \<le> c \<and> c \<le> 8202) \<or>
      c = 8232 \<or> c = 8233 \<or> c = 8239 \<or> c = 8287 \<or> c = 12288 \<or> c = 65279)"

definition trim :: "jsstring \<Rightarrow> jsstring" where
  "trim s = rev (dropWhile isWhiteSpace (rev (dropWhile isWhiteSpace s)))"

text \<open>\<open>s.split(sep)\<close> for a separator of one code unit; the empty string yields \<open>['']\<close>.\<close>

fun splitOn :: "nat \<Rightarrow> jsstring \<Rightarrow> jsstring list" where
  "splitOn sep [] = [[]]"
| "splitOn sep (c # cs) =
     (if c = sep then [] # splitOn sep cs
      else (case splitOn sep cs of [] \<Rightarrow> [[c]] | l # ls \<Rightarrow> (c # l) # ls))"

text \<open>\<open>Array.prototype.join\<close>.\<close>

fun join :: "jsstring \<Rightarrow> jsstring list \<Rightarrow> jsstring" where
  "join sep [] = []"
| "join sep [x] = x"
| "join sep (x # y # ys) = x @ sep @ join sep (y # ys)"

text \<open>
  The Number values a run can produce are non-negative integers, \<open>+Infinity\<close> and
  \<open>NaN\<close>. A Number is an IEEE 754 double, so an integer above \<open>2 ^ 53\<close> is stored
  rounded: \<open>numberValue\<close> is the conversion of a mathematical integer to the nearest
  double (ties to the even significand, overflow to \<open>+Infinity\<close>), written \<open>\<bbbF>\<close> in
  ECMA-262.
\<close>

datatype number = Fin nat | PosInf | NaN

fun bitLength :: "nat \<Rightarrow> nat" where
  "bitLength n = (if n = 0 then 0 else Suc (bitLength (n div 2)))"

declare bitLength.simps [simp del]

definition numberValue :: "nat \<Rightarrow> number" where
  "numberValue n =
     (if n < 2 ^ 53 then Fin n
      else
        (let e = bitLength n - 53;
             q = n div 2 ^ e;
             r = n mod 2 ^ e;
             q' = (if 2 ^ e < 2 * r \<or> (2 * r = 2 ^ e \<and> odd q) then q + 1 else q)
         in if 2 ^ 1024 \<le> q' * 2 ^ e then PosInf else Fin (q' * 2 ^ e)))"

text \<open>
  The operator \<open>+\<close> on these Numbers: the exact sum, rounded. Lengths of lists and
  the counter of a loop over a list are kept as naturals: a string has fewer than
  \<open>2 ^ 53\<close> code units, so these Numbers are exact.
\<close>

fun jsAdd :: "number \<Rightarrow> number \<Rightarrow> number" where
  "jsAdd (Fin a) (Fin b) = numberValue (a + b)"
| "jsAdd (Fin a) PosInf = PosInf"
| "jsAdd (Fin a) NaN = NaN"
| "jsAdd PosInf (Fin b) = PosInf"
| "jsAdd PosInf PosInf = PosInf"
| "jsAdd PosInf NaN = NaN"
| "jsAdd NaN b = NaN"

text \<open>The comparison \<open>x > 0\<close>.\<close>

fun positive :: "number \<Rightarrow> bool" where
  "positive (Fin n) = (0 < n)"
| "positive PosInf = True"
| "positive NaN = False"

definition isDigit :: "nat \<Rightarrow> bool" where
  "isDigit c = (48 \<le> c \<and> c \<le> 57)"

definition decimal :: "jsstring \<Rightarrow> nat" where
  "decimal ds = foldl (\<lambda>acc c. 10 * acc + (c - 48)) 0 ds"

text \<open>
  \<open>parseInt\<close> with no radix, on the arguments this program passes: a non-empty run of
  ASCII digits (the text matched by \<open>\d+\<close>; lemmas \<open>exec_digitsRe_digits\<close> and
  \<open>exec_notSupportedRe_capture\<close>) gives the Number value of its decimal reading. Any
  other argument the program could pass is \<open>undefined\<close>, whose reading is \<open>NaN\<close>;
  signs, leading blanks and the hexadecimal prefix never reach the call and are not
  modelled. (Beyond 20 significant digits ECMA-262 lets an implementation replace the
  further digits by zeros before rounding; the properties below concern readings of
  at most 16 digits.)
\<close>

definition parseInt :: "jsstring \<Rightarrow> number" where
  "parseInt s = (if s \<noteq> [] \<and> list_all isDigit s then numberValue (decimal s) else NaN)"

section \<open>Regular expressions\<close>

text \<open>
  The four patterns of the source use literal characters, \<open>\d\<close>, \<open>.\<close>, the greedy
  quantifiers \<open>*\<close>, \<open>+\<close>, \<open>?\<close> and one capturing group. \<open>ends\<close> is the backtracking
  matcher of ECMA-262 for this fragment: it lists, in the order backtracking tries
  them, the states a pattern can reach from a state. A state is the input still to be
  read and the text of capture 1. A greedy quantifier tries one more iteration before
  it tries to stop, and an iteration that consumes nothing is rejected.
\<close>

datatype cclass = Lit nat | Digit | Dot

datatype regex = Eps | Atom cclass | Seq regex regex | Star regex | Opt regex | Group regex

abbreviation Plus :: "regex \<Rightarrow> regex" where
  "Plus r \<equiv> Seq r (Star r)"

text \<open>The literal text \<open>cs\<close> as a pattern.\<close>

fun chars :: "jsstring \<Rightarrow> regex" where
  "chars [] = Eps"
| "chars (c # cs) = Seq (Atom (Lit c)) (chars cs)"

text \<open>
  \<open>.\<close> excludes the four line terminators LF, CR, U+2028 and U+2029. Under the flag
  \<open>i\<close> two characters match when their canonical forms (the upper-case mapping, which
  never maps a character outside ASCII into ASCII) agree; every literal of the source's
  patterns is ASCII, for which \<open>canonicalize\<close> below is that mapping.
\<close>

definition isLineTerminator :: "nat \<Rightarrow> bool" where
  "isLineTerminator c = (c = 10 \<or> c = 13 \<or> c = 8232 \<or> c = 8233)"

definition canonicalize :: "nat \<Rightarrow> nat" where
  "canonicalize c = (if 97 \<le> c \<and> c \<le> 122 then c - 32 else c)"

fun accepts :: "bool \<Rightarrow> cclass \<Rightarrow> nat \<Rightarrow> bool" where
  "accepts ic (Lit p) c = (if ic then canonicalize c = canonicalize p else c = p)"
| "accepts ic Digit c = isDigit c"
| "accepts ic Dot c = (\<not> isLineTerminator c)"

type_synonym mstate = "jsstring \<times> jsstring option"

function ends :: "bool \<Rightarrow> regex \<Rightarrow> mstate \<Rightarrow> mstate list" where
  "ends ic Eps st = [st]"
| "ends ic (Atom a) st =
     (case fst st of [] \<Rightarrow> [] | c # cs \<Rightarrow> if accepts ic a c then [(cs, snd st)] else [])"
| "ends ic (Seq r1 r2) st = concat (map (ends ic r2) (ends ic r1 st))"
| "ends ic (Star r) st =
     concat (map (ends ic (Star r))
       (filter (\<lambda>st'. length (fst st') < length (fst st)) (ends ic r st))) @ [st]"
| "ends ic (Opt r) st =
     filter (\<lambda>st'. length (fst st') < length (fst st)) (ends ic r st) @ [st]"
| "ends ic (Group r) st =
     map (\<lambda>st'. (fst st', Some (take (length (fst st) - length (fst st')) (fst st))))
       (ends ic r st)"
  by pat_completeness auto
termination
  by (relation "measures [\<lambda>(ic, r, st). size r, \<lambda>(ic, r, st). length (fst st)]") auto

declare ends.simps(4) [simp del]

text \<open>
  A match that starts at the head of \<open>s\<close>: the first state backtracking reaches. None
  of the patterns looks behind or at a boundary, so a match at an index of a text
  depends only on the text from that index on.
\<close>

definition matchAt :: "bool \<Rightarrow> regex \<Rightarrow> jsstring \<Rightarrow> mstate option" where
  "matchAt ic re s = (case ends ic re (s, None) of [] \<Rightarrow> None | st # _ \<Rightarrow> Some st)"

text \<open>
  \<open>s.match(re)\<close> without the flag \<open>g\<close>: the leftmost match, as the pair of the matched
  text (index 0) and capture 1; \<open>None\<close> is \<open>null\<close>.
\<close>

fun exec :: "bool \<Rightarrow> regex \<Rightarrow> jsstring \<Rightarrow> (jsstring \<times> jsstring option) option" where
  "exec ic re [] =
     (case matchAt ic re [] of None \<Rightarrow> None | Some (rest, cap) \<Rightarrow> Some ([], cap))"
| "exec ic re (c # cs) =
     (case matchAt ic re (c # cs) of
        None \<Rightarrow> exec ic re cs
      | Some (rest, cap) \<Rightarrow> Some (take (length (c # cs) - length rest) (c # cs), cap))"

text \<open>
  \<open>s.match(re)\<close> with the flag \<open>g\<close>: the texts of the successive matches, each search
  starting where the previous match ended (one code unit further after an empty
  match). \<open>skip\<close> counts the code units up to that position.
\<close>

fun matchesFrom :: "bool \<Rightarrow> regex \<Rightarrow> nat \<Rightarrow> jsstring \<Rightarrow> jsstring list" where
  "matchesFrom ic re skip [] =
     (if skip = 0 then (case matchAt ic re [] of None \<Rightarrow> [] | Some _ \<Rightarrow> [[]]) else [])"
| "matchesFrom ic re skip (c # cs) =
     (if 0 < skip then matchesFrom ic re (skip - 1) cs
      else
        (case matchAt ic re (c # cs) of
           None \<Rightarrow> matchesFrom ic re 0 cs
         | Some (rest, cap) \<Rightarrow>
             (let m = take (length (c # cs) - length rest) (c # cs)
              in m # matchesFrom ic re (length m - 1) cs)))"

definition matchGlobal :: "bool \<Rightarrow> regex \<Rightarrow> jsstring \<Rightarrow> jsstring list option" where
  "matchGlobal ic re s = (case matchesFrom ic re 0 s of [] \<Rightarrow> None | m # ms \<Rightarrow> Some (m # ms))"

text \<open>The patterns of the source.\<close>

definition issuesFoundRe :: regex where
  \<comment> \<open>\<open>/(\d+) issues? found/gi\<close>\<close>
  "issuesFoundRe =
     Seq (Group (Plus (Atom Digit)))
       (Seq (chars (js '' issue'')) (Seq (Opt (Atom (Lit 115))) (chars (js '' found''))))"

definition digitsRe :: regex where
  \<comment> \<open>\<open>/\d+/\<close>\<close>
  "digitsRe = Plus (Atom Digit)"

definition changedRe :: regex where
  \<comment> \<open>\<open>/Changed.*\.dart/gi\<close>\<close>
  "changedRe = Seq (chars (js ''Changed'')) (Seq (Star (Atom Dot)) (chars (js ''.dart'')))"

definition notSupportedPhrase :: jsstring where
  "notSupportedPhrase = js '' packages doesn'' @ [39] @ js ''t support''"

definition notSupportedRe :: regex where
  \<comment> \<open>\<open>/(\d+) packages doesn't support/\<close>\<close>
  "notSupportedRe = Seq (Group (Plus (Atom Digit))) (chars notSupportedPhrase)"

section \<open>The environment of a run\<close>

text \<open>
  The file system, the YAML loader and the external commands are parameters of the
  model. \<open>readFileSync\<close> and \<open>yamlLoad\<close> can throw (\<open>None\<close>, \<open>LoadThrows\<close>). A loaded
  manifest is \<open>null\<close> or \<open>undefined\<close> (an empty document), or a value whose property
  \<open>description\<close> is read; the property, when present, is modelled as the string that
  the manifest format prescribes (a description that is a number, a sequence or a
  mapping is outside the model).

  \<open>execSync\<close> either returns the standard output of the command or throws an error
  object carrying the fields \<open>stdout\<close> and \<open>stderr\<close>. With \<open>encoding: 'utf-8'\<close> and piped
  streams they are strings after a non-zero exit status; when the child could not be
  spawned at all (the working directory does not exist, for one) both are \<open>null\<close>,
  here \<open>None\<close>.
\<close>

datatype manifest = LoadThrows | Nullish | Document "jsstring option"

datatype exec_outcome = Succeeded jsstring | Failed "jsstring option" "jsstring option"

record env =
  existsSync :: "jsstring \<Rightarrow> bool"
  readFileSync :: "jsstring \<Rightarrow> jsstring option"
  yamlLoad :: "jsstring \<Rightarrow> manifest"
  execSync :: "jsstring \<Rightarrow> jsstring \<Rightarrow> exec_outcome"

text \<open>
  An argument of \<open>console.log\<close> is a concatenation of strings and Numbers; the decimal
  rendering of a Number is left in the line as the piece \<open>Num\<close>.
\<close>

datatype piece = Txt jsstring | Num number

type_synonym line = "piece list"

datatype fault = TypeError | IOError | YAMLException

text \<open>What \<open>executeCommandSync\<close> hands back: a string or \<open>null\<close>.\<close>

datatype cmd_output = Str jsstring | Null

section \<open>The program\<close>

definition REQUIRED_FILES :: "jsstring list" where
  "REQUIRED_FILES = [js ''README.md'', js ''LICENSE'', js ''CONTRIBUTING.md'']"

definition MIN_DESCRIPTION_LENGTH :: nat where
  "MIN_DESCRIPTION_LENGTH = 60"

definition msgDescriptionFound :: line where
  "msgDescriptionFound = [Txt (js ''   Description key found in pubspec.yaml.'')]"

definition msgDescriptionInsufficient :: line where
  "msgDescriptionInsufficient =
     [Txt (js ''   Could not find sufficient description found in pubspec.yaml.'')]"

text \<open>The loop over \<open>REQUIRED_FILES\<close> that pushes each file that exists.\<close>

fun pushFound :: "env \<Rightarrow> jsstring \<Rightarrow> jsstring list \<Rightarrow> jsstring list \<Rightarrow> jsstring list" where
  "pushFound e directory [] foundFiles = foundFiles"
| "pushFound e directory (file # files) foundFiles =
     (if existsSync e (directory @ js ''/'' @ file)
      then pushFound e directory files (foundFiles @ [file])
      else pushFound e directory files foundFiles)"

text \<open>
  \<open>checkDocumentation\<close> returns the lines it printed and either the found files or the
  fault that ended it.
\<close>

definition checkDocumentation :: "env \<Rightarrow> jsstring \<Rightarrow> line list \<times> (fault + jsstring list)" where
  "checkDocumentation e directory =
     (let foundFiles = pushFound e directory REQUIRED_FILES [];
          pubspecPath = directory @ js ''/pubspec.yaml''
      in if existsSync e pubspecPath then
           (case readFileSync e pubspecPath of
              None \<Rightarrow> ([], Inl IOError)
            | Some pubspecContent \<Rightarrow>
                (case yamlLoad e pubspecContent of
                   LoadThrows \<Rightarrow> ([], Inl YAMLException)
                 | Nullish \<Rightarrow> ([], Inl TypeError)
                 | Document d \<Rightarrow>
                     (let description = (case d of None \<Rightarrow> [] | Some t \<Rightarrow> t)
                      in if MIN_DESCRIPTION_LENGTH < length description
                         then ([msgDescriptionFound], Inr foundFiles)
                         else ([msgDescriptionInsufficient], Inr foundFiles))))
         else ([], Inr foundFiles))"

text \<open>
  \<open>executeCommandSync\<close>. Every call of the source leaves \<open>suppressOutput\<close> at its
  default \<open>false\<close>, and that branch is the one modelled: the output on success, the
  field \<open>stderr\<close> of the error otherwise.
\<close>

definition executeCommandSync :: "env \<Rightarrow> jsstring \<Rightarrow> jsstring \<Rightarrow> cmd_output" where
  "executeCommandSync e command cwd =
     (case execSync e command cwd of
        Succeeded out \<Rightarrow> Str out
      | Failed errStdout errStderr \<Rightarrow> (case errStderr of None \<Rightarrow> Null | Some t \<Rightarrow> Str t))"

definition getNumberOfAnalysisIssue :: "jsstring \<Rightarrow> number" where
  "getNumberOfAnalysisIssue output =
     (case matchGlobal True issuesFoundRe output of
        None \<Rightarrow> Fin 0
      | Some matches \<Rightarrow>
          foldl (\<lambda>totalIssues m.
                   (case exec False digitsRe m of
                      None \<Rightarrow> totalIssues
                    | Some (countMatch0, cap) \<Rightarrow> jsAdd totalIssues (parseInt countMatch0)))
            (Fin 0) matches)"

text \<open>The loop of \<open>parseOutdatedPackagesOutput\<close> over the lines, with its counter.\<close>

fun countUpgradable :: "jsstring list \<Rightarrow> nat \<Rightarrow> nat" where
  "countUpgradable [] upgradableCount = upgradableCount"
| "countUpgradable (l # ls) upgradableCount =
     (let line = trim l
      in if \<not> includesStr line [42] then countUpgradable ls upgradableCount
         else if includesStr line [42] \<and> 0 < length (trim line)
              then countUpgradable ls (upgradableCount + 1)
              else countUpgradable ls upgradableCount)"

definition parseOutdatedPackagesOutput :: "jsstring \<Rightarrow> nat" where
  "parseOutdatedPackagesOutput output = countUpgradable (splitOn 10 (trim output)) 0"

definition msgAnalyzeEmpty :: line where
  "msgAnalyzeEmpty =
     [Txt (js ''   Some error occurred while executing flutter analyze command. Run '' @ [39]
           @ js ''flutter analyze'' @ [39] @ js '' command in your project to check for issues.'')]"

definition msgAnalyzeNull :: line where
  "msgAnalyzeNull =
     [Txt (js (''   Some error occurred while flutter analyze command. ''
           @ ''Run flutter analyze command in your project to check for issues.''))]"

definition msgRunAnalyze :: line where
  "msgRunAnalyze =
     [Txt (js ''   Run '' @ [39] @ js ''flutter analyze'' @ [39]
           @ js '' command in your project to check for issues.'')]"

definition msgNoIssues :: line where
  "msgNoIssues = [Txt (js ''   No analysis issues found.'')]"

definition msgRunFormat :: line where
  "msgRunFormat =
     [Txt (js ''   Run '' @ [39] @ js ''dart format .'' @ [39]
           @ js '' command in your project to get the files formatted.'')]"

definition msgNoFormatting :: line where
  "msgNoFormatting = [Txt (js ''   No files needed formatting.'')]"

text \<open>The number of matches of \<open>/Changed.*\.dart/gi\<close>, \<open>formattedFiles.length\<close>.\<close>

definition formattedFiles :: "jsstring \<Rightarrow> jsstring list option" where
  "formattedFiles dartFormatOutput = matchGlobal True changedRe dartFormatOutput"

definition runFlutterFormatAnalysis :: "env \<Rightarrow> jsstring \<Rightarrow> line list" where
  "runFlutterFormatAnalysis e projectDirectory =
     (case executeCommandSync e (js ''flutter analyze'') projectDirectory of
        Null \<Rightarrow> [msgAnalyzeNull]
      | Str flutterOutput \<Rightarrow>
          if flutterOutput = [] then [msgAnalyzeEmpty]
          else
            (let issueCount = getNumberOfAnalysisIssue flutterOutput
             in if positive issueCount
                then [[Txt (js ''   Found ''), Num issueCount, Txt (js '' analysis issues.'')],
                      msgRunAnalyze]
                else [[Txt flutterOutput], msgNoIssues]))
     @
     (case executeCommandSync e (js ''dart format --output=none .'') projectDirectory of
        Null \<Rightarrow> []
      | Str dartFormatOutput \<Rightarrow>
          (case formattedFiles dartFormatOutput of
             Some files \<Rightarrow>
               [[Txt (10 # js ''   ''), Num (Fin (length files)),
                 Txt (js '' files needs to be formatted.'')],
                msgRunFormat]
           | None \<Rightarrow> [msgNoFormatting]))"

definition msgRunOutdated :: line where
  "msgRunOutdated =
     [Txt (js ''   Run '' @ [39] @ js ''dart pub outdated'' @ [39]
           @ js '' command in your project to know more about these.'')]"

definition msgAllLatest :: line where
  "msgAllLatest = [Txt (js ''   All pub dependencies on respective latest versions.'')]"

definition analysePubspecDependencies :: "env \<Rightarrow> jsstring \<Rightarrow> line list" where
  "analysePubspecDependencies e projectDirectory =
     (case executeCommandSync e (js ''dart pub outdated'') projectDirectory of
        Null \<Rightarrow> []
      | Str outdatedPackages \<Rightarrow>
          (let upgradablePackagesCount = parseOutdatedPackagesOutput outdatedPackages
           in if 0 < upgradablePackagesCount
              then [[Txt (js ''   Found ''), Num (Fin upgradablePackagesCount),
                     Txt (js '' packages which can be updated.'')],
                    msgRunOutdated]
              else [msgAllLatest]))"

text \<open>
  \<open>countNotSupportedPackages\<close> receives what \<open>executeCommandSync\<close> returned; on \<open>null\<close>
  the call \<open>input.match\<close> throws a TypeError. \<open>match[1]\<close> is capture 1.
\<close>

definition countNotSupportedPackages :: "cmd_output \<Rightarrow> fault + number" where
  "countNotSupportedPackages input =
     (case input of
        Null \<Rightarrow> Inl TypeError
      | Str t \<Rightarrow>
          (case exec False notSupportedRe t of
             Some (match0, match1) \<Rightarrow>
               Inr (case match1 of None \<Rightarrow> NaN | Some ds \<Rightarrow> parseInt ds)
           | None \<Rightarrow> Inr (Fin 0)))"

definition phraseResolving :: jsstring where
  "phraseResolving = js ''Add will_it_run: Resolving dependencies''"

definition phraseAlready :: jsstring where
  "phraseAlready =
     [34] @ js ''will_it_run'' @ [34] @ js '' is already in '' @ [34] @ js ''dependencies'' @ [34]"

definition osList :: "jsstring list" where
  "osList = [js ''android'', js ''ios'', js ''web'']"

text \<open>The loop over the platforms: the lines printed and the fault that ended it, if any.\<close>

fun platformLoop :: "env \<Rightarrow> jsstring \<Rightarrow> jsstring list \<Rightarrow> line list \<times> fault option" where
  "platformLoop e projectDirectory [] = ([], None)"
| "platformLoop e projectDirectory (os # rest) =
     (let command = js ''dart run will_it_run:'' @ os;
          supportCheck = executeCommandSync e command projectDirectory
      in case countNotSupportedPackages supportCheck of
           Inl f \<Rightarrow> ([], Some f)
         | Inr packagesNotSupportedCount \<Rightarrow>
             (let printed =
                    (if positive packagesNotSupportedCount
                     then [Txt (js ''   Found ''), Num packagesNotSupportedCount,
                           Txt (js '' packages not supported for '' @ os)]
                     else [Txt (js ''   All packages are supported for '' @ os)]);
                  later = platformLoop e projectDirectory rest
              in (printed # fst later, snd later)))"

text \<open>On \<open>null\<close> the call \<open>addWillItRun.includes\<close> throws a TypeError.\<close>

definition analyseSupportedPlatforms :: "env \<Rightarrow> jsstring \<Rightarrow> line list \<times> fault option" where
  "analyseSupportedPlatforms e projectDirectory =
     (case executeCommandSync e (js ''dart pub add will_it_run'') projectDirectory of
        Null \<Rightarrow> ([], Some TypeError)
      | Str addWillItRun \<Rightarrow>
          if includesStr addWillItRun phraseResolving \<or> includesStr addWillItRun phraseAlready
          then platformLoop e projectDirectory osList
          else ([[Txt addWillItRun]], None))"

text \<open>
  A run of \<open>main\<close> on the command-line arguments after the script name: the lines
  written to the two streams and how the run ended (\<open>process.exit\<close>, a normal return
  or an uncaught fault).
\<close>

datatype outcome = Exited nat | Returned | Threw fault

record run =
  stdout :: "line list"
  stderr :: "line list"
  ending :: outcome

definition msgUsage :: line where
  "msgUsage = [Txt (js ''Usage: pub-score2.js <directory>'')]"

definition msgStarting :: line where
  "msgStarting = [Txt (10 # js ''Starting analysis...'')]"

definition msgFinished :: line where
  "msgFinished = [Txt (10 # js ''Analysis finished.'')]"

definition missingFiles :: "jsstring list \<Rightarrow> jsstring list" where
  "missingFiles foundFiles = filter (\<lambda>file. file \<notin> set foundFiles) REQUIRED_FILES"

definition main :: "env \<Rightarrow> jsstring list \<Rightarrow> run" where
  "main e args =
     (case args of
        [directory] \<Rightarrow>
          (let head = [msgStarting, [Txt (10 # js ''1. Checking required files and descriptions...'')]];
               doc = checkDocumentation e directory
           in case snd doc of
                Inl f \<Rightarrow> \<lparr>stdout = head @ fst doc, stderr = [], ending = Threw f\<rparr>
              | Inr foundFiles \<Rightarrow>
                  (let report =
                         [[Txt (js ''   Found ''), Num (Fin (length foundFiles)),
                           Txt (js '' documentation files'')]]
                         @ (if 0 < length (missingFiles foundFiles)
                            then [[Txt (js ''   Missing documentation file(s): ''
                                        @ join (js '', '') (missingFiles foundFiles) @ js ''.'')]]
                            else [])
                         @ [[Txt (10 # js ''2. Analysing Flutter format and warnings...'')]]
                         @ runFlutterFormatAnalysis e directory
                         @ [[Txt (10 # js ''3. Analysing pubspec dependecies...'')]]
                         @ analysePubspecDependencies e directory
                         @ [[Txt (10 # js ''4. Analysing supported platforms...'')]];
                       platforms = analyseSupportedPlatforms e directory
                   in case snd platforms of
                        Some f \<Rightarrow>
                          \<lparr>stdout = head @ fst doc @ report @ fst platforms, stderr = [],
                           ending = Threw f\<rparr>
                      | None \<Rightarrow>
                          \<lparr>stdout = head @ fst doc @ report @ fst platforms @ [msgFinished],
                           stderr = [], ending = Returned\<rparr>))
      | _ \<Rightarrow> \<lparr>stdout = [], stderr = [msgUsage], ending = Exited 1\<rparr>)"

text \<open>
  The exit status of the process: the argument of \<open>process.exit\<close>, and 0 after a normal
  return. After a fault \<open>main\<close>, an \<open>async\<close> function, hands a rejected promise to its
  caller, which is not part of this file: the status is then not determined here.
\<close>

fun exitStatus :: "outcome \<Rightarrow> nat option" where
  "exitStatus (Exited n) = Some n"
| "exitStatus Returned = Some 0"
| "exitStatus (Threw f) = None"

section \<open>Notions the properties are stated with\<close>

text \<open>\<open>litPrefix ic ps s\<close>: the literal text \<open>ps\<close> stands at the head of \<open>s\<close>.\<close>

fun litPrefix :: "bool \<Rightarrow> jsstring \<Rightarrow> jsstring \<Rightarrow> bool" where
  "litPrefix ic [] s = True"
| "litPrefix ic (p # ps) [] = False"
| "litPrefix ic (p # ps) (c # cs) = (accepts ic (Lit p) c \<and> litPrefix ic ps cs)"

text \<open>
  The inputs a greedy \<open>c*\<close> leaves to what follows it, in the order it offers them: the
  longest run of \<open>c\<close> first, then one character less at a time.
\<close>

fun backtracks :: "(nat \<Rightarrow> bool) \<Rightarrow> jsstring \<Rightarrow> jsstring list" where
  "backtracks P [] = [[]]"
| "backtracks P (c # cs) = (if P c then backtracks P cs @ [c # cs] else [c # cs])"

text \<open>
  An environment for examples: the listed paths exist and read as the empty file, the
  loader yields \<open>m\<close>, and a command's outcome depends on the command alone.
\<close>

definition exampleEnv :: "jsstring list \<Rightarrow> manifest \<Rightarrow> (jsstring \<Rightarrow> exec_outcome) \<Rightarrow> env" where
  "exampleEnv present m outcomeOf =
     \<lparr>existsSync = (\<lambda>p. p \<in> set present),
      readFileSync = (\<lambda>p. if p \<in> set present then Some [] else None),
      yamlLoad = (\<lambda>c. m),
      execSync = (\<lambda>command cwd. outcomeOf command)\<rparr>"

text \<open>
  The environment of a run on a directory that does not exist: no file is there, and
  no command can be spawned in it.
\<close>

definition spawnFails :: env where
  "spawnFails = exampleEnv [] Nullish (\<lambda>command. Failed None None)"

text \<open>
  \<open>numberedAt ic phrase s\<close>: a run of one or more digits stands at the head of \<open>s\<close>,
  followed at once by the text \<open>phrase\<close>.
\<close>

definition numberedAt :: "bool \<Rightarrow> jsstring \<Rightarrow> jsstring \<Rightarrow> bool" where
  "numberedAt ic phrase s =
     (takeWhile isDigit s \<noteq> [] \<and> litPrefix ic phrase (dropWhile isDigit s))"

text \<open>
  The two texts that \<open>/ issues? found/\<close> admits after the number, and the property
  \<open>issueAt s\<close> that a number followed by one of them, in any letter case, stands at
  the head of \<open>s\<close>.
\<close>

definition issueSingular :: jsstring where
  "issueSingular = js '' issue found''"

definition issuePlural :: jsstring where
  "issuePlural = js '' issues found''"

definition issueAt :: "jsstring \<Rightarrow> bool" where
  "issueAt s = (numberedAt True issuePlural s \<or> numberedAt True issueSingular s)"

definition isIssuePhrase :: "jsstring \<Rightarrow> bool" where
  "isIssuePhrase w =
     (map canonicalize w = map canonicalize issuePlural
      \<or> map canonicalize w = map canonicalize issueSingular)"

text \<open>\<open>noIssue g\<close>: nowhere in \<open>g\<close> does a number followed by such a text begin.\<close>

definition noIssue :: "jsstring \<Rightarrow> bool" where
  "noIssue g = (\<forall>i<length g. \<not> issueAt (drop i g))"

text \<open>
  A text with \<open>k\<close> occurrences, given as the list of its occurrences, each with the gap
  that precedes it, its digits and its wording, and the text after the last one. An
  occurrence is well placed when its gap holds no occurrence and does not end in a
  digit (so that the digits are the whole number), the digits are one or more, and the
  wording is one of the two texts in some letter case.
\<close>

fun issueText :: "(jsstring \<times> jsstring \<times> jsstring) list \<Rightarrow> jsstring \<Rightarrow> jsstring" where
  "issueText [] rest = rest"
| "issueText ((gap, ds, w) # occs) rest = gap @ ds @ w @ issueText occs rest"

fun wellPlaced :: "jsstring \<times> jsstring \<times> jsstring \<Rightarrow> bool" where
  "wellPlaced (gap, ds, w) =
     (noIssue gap \<and> (gap = [] \<or> \<not> isDigit (last gap))
      \<and> ds \<noteq> [] \<and> list_all isDigit ds \<and> isIssuePhrase w)"

fun counts :: "(jsstring \<times> jsstring \<times> jsstring) list \<Rightarrow> nat list" where
  "counts [] = []"
| "counts ((gap, ds, w) # occs) = decimal ds # counts occs"

text \<open>
  The lines of a text as the pattern character \<open>.\<close> sees them: the pieces between line
  terminators. \<open>formattedCount\<close> is the number of matches of \<open>/Changed.*\.dart/gi\<close>,
  the length of \<open>formattedFiles\<close> when that is not \<open>null\<close>.
\<close>

fun jsLines :: "jsstring \<Rightarrow> jsstring list" where
  "jsLines [] = [[]]"
| "jsLines (c # cs) =
     (if isLineTerminator c then [] # jsLines cs
      else (case jsLines cs of [] \<Rightarrow> [[c]] | l # ls \<Rightarrow> (c # l) # ls))"

definition formattedCount :: "jsstring \<Rightarrow> nat" where
  "formattedCount s = length (matchesFrom True changedRe 0 s)"

definition noDart :: "jsstring \<Rightarrow> bool" where
  "noDart x = (\<forall>i. \<not> litPrefix True (js ''.dart'') (drop i x))"

section \<open>Numbers\<close>

lemma numberValue_exact: "n < 2 ^ 53 \<Longrightarrow> numberValue n = Fin n"
  by (simp add: numberValue_def)

lemma numberValue_2_53_1: "numberValue 9007199254740993 = Fin 9007199254740992"
  by (simp add: numberValue_def bitLength.simps Let_def)

lemma numberValue_2_53: "numberValue 9007199254740992 = Fin 9007199254740992"
  by (simp add: numberValue_def bitLength.simps Let_def)

lemma decimal_2_53_1: "decimal (js ''9007199254740993'') = 9007199254740993"
  by (simp add: decimal_def js_def)

lemma parseInt_digits:
  "ds \<noteq> [] \<Longrightarrow> list_all isDigit ds \<Longrightarrow> parseInt ds = numberValue (decimal ds)"
  by (simp add: parseInt_def)

section \<open>Strings\<close>

lemma includesStr_single: "includesStr s [c] = (c \<in> set s)"
  by (induction s) auto

lemma mem_dropWhile: "x \<in> set s \<Longrightarrow> \<not> P x \<Longrightarrow> x \<in> set (dropWhile P s)"
  by (induction s) auto

lemma mem_trim: "x \<in> set s \<Longrightarrow> \<not> isWhiteSpace x \<Longrightarrow> x \<in> set (trim s)"
  unfolding trim_def by (simp add: mem_dropWhile)

lemma star_not_white: "\<not> isWhiteSpace 42"
  by (simp add: isWhiteSpace_def)

lemma takeWhile_run:
  "list_all P ds \<Longrightarrow> rest = [] \<or> \<not> P (hd rest) \<Longrightarrow> takeWhile P (ds @ rest) = ds"
  by (induction ds) (auto simp: takeWhile_eq_Nil_iff)

lemma dropWhile_run:
  "list_all P ds \<Longrightarrow> rest = [] \<or> \<not> P (hd rest) \<Longrightarrow> dropWhile P (ds @ rest) = rest"
  by (induction ds) (auto simp: dropWhile_eq_self_iff)

lemma concat_map_if: "concat (map (\<lambda>x. if P x then [f x] else []) xs) = map f (filter P xs)"
  by (induction xs) simp_all

lemma sum_list_le_length: "\<forall>x\<in>set xs. f x \<le> (1::nat) \<Longrightarrow> sum_list (map f xs) \<le> length xs"
  by (induction xs) (simp_all add: add_le_mono)

section \<open>The matcher\<close>

lemma litPrefix_False: "litPrefix False ps s = prefix ps s"
proof (induction ps arbitrary: s)
  case Nil
  show ?case by simp
next
  case (Cons p ps)
  then show ?case by (cases s) auto
qed

lemma litPrefix_length: "litPrefix ic ps s \<Longrightarrow> length ps \<le> length s"
proof (induction ps arbitrary: s)
  case Nil
  show ?case by simp
next
  case (Cons p ps)
  then show ?case by (cases s) (simp_all del: accepts.simps)
qed

lemma litPrefix_reject:
  "\<forall>p\<in>set ps. \<not> accepts ic (Lit p) x \<Longrightarrow> litPrefix ic ps (v @ x # t) = litPrefix ic ps v"
proof (induction ps arbitrary: v)
  case Nil
  show ?case by simp
next
  case (Cons p ps)
  then show ?case by (cases v) (simp_all del: accepts.simps)
qed

lemma litPrefix_append: "litPrefix ic ps s \<Longrightarrow> litPrefix ic ps (s @ t)"
proof (induction ps arbitrary: s)
  case Nil
  show ?case by simp
next
  case (Cons p ps)
  then show ?case by (cases s) (simp_all del: accepts.simps)
qed

lemma litPrefix_app:
  "litPrefix ic (a @ b) s = (litPrefix ic a s \<and> litPrefix ic b (drop (length a) s))"
proof (induction a arbitrary: s)
  case Nil
  show ?case by simp
next
  case (Cons p ps)
  then show ?case by (cases s) (simp_all del: accepts.simps)
qed

lemma ci_phrase_prefix:
  "map canonicalize w = map canonicalize ps \<Longrightarrow> litPrefix True ps (w @ X)"
proof (induction ps arbitrary: w)
  case Nil
  show ?case by simp
next
  case (Cons p ps)
  then show ?case by (cases w) auto
qed

lemma litPrefix_canonical:
  "litPrefix True ps s \<Longrightarrow> map canonicalize (take (length ps) s) = map canonicalize ps"
proof (induction ps arbitrary: s)
  case Nil
  show ?case by simp
next
  case (Cons p ps)
  then show ?case by (cases s) auto
qed

lemma ends_Atom_suffix: "st' \<in> set (ends ic (Atom a) (s, cap)) \<Longrightarrow> suffix (fst st') s"
  by (cases s) (auto split: if_splits simp: suffix_ConsI)

lemma ends_suffix: "st' \<in> set (ends ic r st) \<Longrightarrow> suffix (fst st') (fst st)"
proof (induction ic r st arbitrary: st' rule: ends.induct)
  case (1 ic st)
  then show ?case by simp
next
  case (2 ic a st)
  then show ?case using ends_Atom_suffix[of st' ic a "fst st" "snd st"] by simp
next
  case (3 ic r1 r2 st)
  from "3.prems" obtain m where m: "m \<in> set (ends ic r1 st)" "st' \<in> set (ends ic r2 m)"
    by auto
  from "3.IH"(1)[OF m(1)] "3.IH"(2)[OF m(1) m(2)] show ?case
    using suffix_order.trans by blast
next
  case (4 ic r st)
  show ?case
  proof (cases "st' = st")
    case True
    then show ?thesis by simp
  next
    case False
    from "4.prems" have "st' \<in> set (concat (map (ends ic (Star r))
       (filter (\<lambda>st'. length (fst st') < length (fst st)) (ends ic r st))) @ [st])"
      by (subst (asm) ends.simps(4))
    with False obtain m where m: "m \<in> set (ends ic r st)" "length (fst m) < length (fst st)"
       "st' \<in> set (ends ic (Star r) m)" by auto
    from "4.IH"(1)[OF m(1)] "4.IH"(2)[of m st'] m show ?thesis
      using suffix_order.trans by auto
  qed
next
  case (5 ic r st)
  then show ?case by (cases st') auto
next
  case (6 ic r st)
  then show ?case by (cases st') auto
qed

lemma matchAt_suffix: "matchAt ic re s = Some (rest, cap) \<Longrightarrow> suffix rest s"
  using ends_suffix[of "(rest, cap)" ic re "(s, None)"]
  by (auto simp: matchAt_def split: list.splits)

lemma ends_chars:
  "ends ic (chars ps) (s, cap) =
     (if litPrefix ic ps s then [(drop (length ps) s, cap)] else [])"
proof (induction ps arbitrary: s)
  case Nil
  then show ?case by simp
next
  case (Cons p ps)
  then show ?case by (cases s) (simp_all del: accepts.simps)
qed

lemma ends_Star_Atom:
  "ends ic (Star (Atom a)) (s, cap) = map (\<lambda>r. (r, cap)) (backtracks (accepts ic a) s)"
proof (induction s)
  case Nil
  show ?case by (subst ends.simps(4)) simp
next
  case (Cons c cs)
  then show ?case by (subst ends.simps(4)) simp
qed

lemma concat_backtracks:
  assumes "\<And>c cs. P c \<Longrightarrow> f (c # cs) = []"
  shows "concat (map f (backtracks P s)) = f (dropWhile P s)"
  using assms by (induction s) auto

lemma backtracks_nonempty: "backtracks P s \<noteq> []"
  by (induction s) simp_all

lemma backtracks_first: "hd (backtracks P s) = dropWhile P s"
  by (induction s) (simp_all add: backtracks_nonempty)

lemma backtracks_hd: "backtracks P s = dropWhile P s # tl (backtracks P s)"
  using backtracks_nonempty[of P s] backtracks_first[of P s] by (cases "backtracks P s") simp_all

lemma backtracks_drop: "r \<in> set (backtracks P y) \<Longrightarrow> \<exists>j. r = drop j y"
proof (induction y)
  case Nil
  then show ?case by simp
next
  case (Cons c cs)
  show ?case
  proof (cases "r = c # cs")
    case True
    then show ?thesis by (metis drop0)
  next
    case False
    with Cons.prems have "r \<in> set (backtracks P cs)" by (simp split: if_splits)
    with Cons.IH obtain j where "r = drop j cs" by blast
    then have "r = drop (Suc j) (c # cs)" by simp
    then show ?thesis by blast
  qed
qed

lemma take_run: "take (Suc (length cs) - length (dropWhile P cs)) (c # cs) = c # takeWhile P cs"
proof -
  have "length cs = length (takeWhile P cs) + length (dropWhile P cs)"
    by (metis length_append takeWhile_dropWhile_id)
  then have "Suc (length cs) - length (dropWhile P cs) = Suc (length (takeWhile P cs))"
    by simp
  then show ?thesis by (simp add: takeWhile_eq_take[symmetric])
qed

lemma accepts_Digit: "accepts ic Digit = isDigit"
  by (rule ext) simp

lemma accepts_Dot: "accepts ic Dot = (\<lambda>c. \<not> isLineTerminator c)"
  by (rule ext) simp

lemma ends_Group_Plus_then:
  assumes "\<And>c cs cap'. accepts ic a c \<Longrightarrow> ends ic r (c # cs, cap') = []"
  shows "ends ic (Seq (Group (Plus (Atom a))) r) (s, cap) =
     (if takeWhile (accepts ic a) s = [] then []
      else ends ic r (dropWhile (accepts ic a) s, Some (takeWhile (accepts ic a) s)))"
proof (cases s)
  case Nil
  then show ?thesis by simp
next
  case (Cons c cs)
  show ?thesis
  proof (cases "accepts ic a c")
    case False
    with Cons show ?thesis by simp
  next
    case True
    let ?P = "accepts ic a"
    let ?f = "\<lambda>x. ends ic r (x, Some (take (Suc (length cs) - length x) (c # cs)))"
    have "ends ic (Seq (Group (Plus (Atom a))) r) (s, cap)
        = concat (map ?f (backtracks ?P cs))"
      using True Cons by (simp add: ends_Star_Atom comp_def)
    also have "\<dots> = ?f (dropWhile ?P cs)"
      by (rule concat_backtracks) (simp add: assms)
    finally show ?thesis using True Cons by (simp add: take_run)
  qed
qed

lemma ends_Opt_Lit_then:
  "ends ic (Seq (Opt (Atom (Lit p))) (chars f)) (v, cap) =
     (if litPrefix ic (p # f) v then [(drop (Suc (length f)) v, cap)] else [])
     @ (if litPrefix ic f v then [(drop (length f) v, cap)] else [])"
  by (cases v) (simp_all add: ends_chars del: accepts.simps)

lemma exec_first:
  "k \<le> length s \<Longrightarrow> \<forall>i<k. matchAt ic re (drop i s) = None \<Longrightarrow>
   matchAt ic re (drop k s) = Some (rest, cap) \<Longrightarrow>
   exec ic re s = Some (take (length s - k - length rest) (drop k s), cap)"
proof (induction s arbitrary: k)
  case Nil
  then show ?case by simp
next
  case (Cons c cs)
  show ?case
  proof (cases k)
    case 0
    with Cons.prems show ?thesis by simp
  next
    case (Suc j)
    from Cons.prems Suc have none: "matchAt ic re (c # cs) = None" by auto
    have "\<forall>i<j. matchAt ic re (drop i cs) = None"
      using Cons.prems(2) Suc by (metis Suc_less_eq drop_Suc_Cons)
    with Cons.IH[of j] Cons.prems Suc none show ?thesis by simp
  qed
qed

lemma exec_none:
  "\<forall>i\<le>length s. matchAt ic re (drop i s) = None \<Longrightarrow> exec ic re s = None"
proof (induction s)
  case Nil
  then show ?case by simp
next
  case (Cons c cs)
  from Cons.prems have none: "matchAt ic re (c # cs) = None" by (metis drop0 le0)
  have "\<forall>i\<le>length cs. matchAt ic re (drop i cs) = None"
    using Cons.prems by (metis Suc_le_mono drop_Suc_Cons length_Cons)
  with Cons.IH none show ?case by simp
qed

lemma matchesFrom_skip:
  "k \<le> length s \<Longrightarrow> matchesFrom ic re k s = matchesFrom ic re 0 (drop k s)"
proof (induction s arbitrary: k)
  case Nil
  then show ?case by simp
next
  case (Cons c cs)
  then show ?case by (cases k) simp_all
qed

lemma matchesFrom_gap:
  "\<forall>i<length g. matchAt ic re (drop i g @ X) = None \<Longrightarrow>
   matchesFrom ic re 0 (g @ X) = matchesFrom ic re 0 X"
proof (induction g)
  case Nil
  show ?case by simp
next
  case (Cons c cs)
  from Cons.prems have "matchAt ic re ((c # cs) @ X) = None" by (metis drop0 length_greater_0_conv list.discI)
  moreover have "\<forall>i<length cs. matchAt ic re (drop i cs @ X) = None"
    using Cons.prems by (metis Suc_less_eq drop_Suc_Cons length_Cons)
  ultimately show ?case using Cons.IH by simp
qed

lemma matchesFrom_none:
  "\<forall>i\<le>length s. matchAt ic re (drop i s) = None \<Longrightarrow> matchesFrom ic re 0 s = []"
proof -
  assume a: "\<forall>i\<le>length s. matchAt ic re (drop i s) = None"
  then have "\<forall>i<length s. matchAt ic re (drop i s @ []) = None" by simp
  from matchesFrom_gap[OF this] have "matchesFrom ic re 0 s = matchesFrom ic re 0 []" by simp
  moreover from a have "matchAt ic re [] = None" by (metis drop_all order_refl)
  ultimately show ?thesis by simp
qed

lemma matchesFrom_hit:
  assumes "matchAt ic re (m @ X) = Some (X, cap)" "m \<noteq> []"
  shows "matchesFrom ic re 0 (m @ X) = m # matchesFrom ic re 0 X"
proof -
  obtain c cs where m: "m = c # cs" using assms(2) by (cases m) auto
  have "matchesFrom ic re 0 (m @ X) = m # matchesFrom ic re (length cs) (cs @ X)"
    using assms(1) unfolding m by (simp add: Let_def)
  also have "matchesFrom ic re (length cs) (cs @ X) = matchesFrom ic re 0 X"
    by (subst matchesFrom_skip) simp_all
  finally show ?thesis .
qed

section \<open>The documentation check\<close>

lemma pushFound_filter:
  "pushFound e d files acc = acc @ filter (\<lambda>file. existsSync e (d @ js ''/'' @ file)) files"
  by (induction files arbitrary: acc) simp_all

lemma checkDocumentation_cases:
  "snd (checkDocumentation e d) =
     Inr (filter (\<lambda>file. existsSync e (d @ js ''/'' @ file)) REQUIRED_FILES)
   \<or> (\<exists>f. snd (checkDocumentation e d) = Inl f \<and> existsSync e (d @ js ''/pubspec.yaml''))"
  by (simp add: checkDocumentation_def pushFound_filter Let_def
      split: option.splits manifest.splits)

lemma REQUIRED_FILES_distinct: "distinct REQUIRED_FILES"
  by (simp add: REQUIRED_FILES_def js_def)

text \<open>
  C4. When the manifest exists and loads, a description of exactly 60 code units is
  reported insufficient, one of 61 or more is reported as found, and a manifest without
  the field is handled exactly as one whose description is the empty string.
\<close>

theorem description_threshold:
  assumes "existsSync e (d @ js ''/pubspec.yaml'')"
    and "readFileSync e (d @ js ''/pubspec.yaml'') = Some content"
  shows "(length t = 60 \<and> yamlLoad e content = Document (Some t)
            \<longrightarrow> fst (checkDocumentation e d) = [msgDescriptionInsufficient])
       \<and> (61 \<le> length t \<and> yamlLoad e content = Document (Some t)
            \<longrightarrow> fst (checkDocumentation e d) = [msgDescriptionFound])
       \<and> (yamlLoad e content = Document None
            \<longrightarrow> checkDocumentation e d =
                checkDocumentation (e\<lparr>yamlLoad := \<lambda>c. Document (Some [])\<rparr>) d)"
  using assms
  by (simp add: checkDocumentation_def MIN_DESCRIPTION_LENGTH_def pushFound_filter)

theorem description_threshold_witness:
  "fst (checkDocumentation
          (exampleEnv [js ''pkg/pubspec.yaml''] (Document (Some (replicate 60 97))) (\<lambda>c. Succeeded []))
          (js ''pkg'')) = [msgDescriptionInsufficient]
   \<and> fst (checkDocumentation
          (exampleEnv [js ''pkg/pubspec.yaml''] (Document (Some (replicate 61 97))) (\<lambda>c. Succeeded []))
          (js ''pkg'')) = [msgDescriptionFound]
   \<and> fst (checkDocumentation
          (exampleEnv [js ''pkg/pubspec.yaml''] (Document None) (\<lambda>c. Succeeded []))
          (js ''pkg'')) = [msgDescriptionInsufficient]"
proof -
  let ?e = "\<lambda>m. exampleEnv [js ''pkg/pubspec.yaml''] m (\<lambda>c. Succeeded [])"
  have ex: "existsSync (?e m) (js ''pkg'' @ js ''/pubspec.yaml'')" for m
    by (simp add: exampleEnv_def js_def)
  have rd: "readFileSync (?e m) (js ''pkg'' @ js ''/pubspec.yaml'') = Some []" for m
    by (simp add: exampleEnv_def js_def)
  have ld: "yamlLoad (?e m) [] = m" for m
    by (simp add: exampleEnv_def)
  have upd: "(?e (Document None))\<lparr>yamlLoad := \<lambda>c. Document (Some [])\<rparr> = ?e (Document (Some []))"
    by (simp add: exampleEnv_def)
  have a: "fst (checkDocumentation (?e (Document (Some (replicate 60 97)))) (js ''pkg''))
      = [msgDescriptionInsufficient]"
    using description_threshold[OF ex rd, of "replicate 60 97" "Document (Some (replicate 60 97))"]
    by (simp add: ld)
  have b: "fst (checkDocumentation (?e (Document (Some (replicate 61 97)))) (js ''pkg''))
      = [msgDescriptionFound]"
    using description_threshold[OF ex rd, of "replicate 61 97" "Document (Some (replicate 61 97))"]
    by (simp add: ld)
  have c: "checkDocumentation (?e (Document None)) (js ''pkg'')
      = checkDocumentation (?e (Document (Some []))) (js ''pkg'')"
    using description_threshold[OF ex rd, of "[]" "Document None"]
    by (simp add: ld upd)
  have d: "fst (checkDocumentation (?e (Document (Some []))) (js ''pkg''))
      = [msgDescriptionInsufficient]"
    using ex[of "Document (Some [])"] rd[of "Document (Some [])"]
    by (simp add: checkDocumentation_def ld MIN_DESCRIPTION_LENGTH_def)
  show ?thesis using a b c d by simp
qed

text \<open>
  C5. In a directory where \<open>README.md\<close> and \<open>LICENSE\<close> exist and neither
  \<open>CONTRIBUTING.md\<close> nor a manifest does, \<open>checkDocumentation\<close> prints nothing and
  returns exactly \<open>README.md\<close> and \<open>LICENSE\<close>; the caller's list of missing files for
  that result is exactly \<open>CONTRIBUTING.md\<close>.
\<close>

theorem readme_and_license_present:
  assumes "existsSync e (d @ js ''/'' @ js ''README.md'')"
    and "existsSync e (d @ js ''/'' @ js ''LICENSE'')"
    and "\<not> existsSync e (d @ js ''/'' @ js ''CONTRIBUTING.md'')"
    and "\<not> existsSync e (d @ js ''/pubspec.yaml'')"
  shows "checkDocumentation e d = ([], Inr [js ''README.md'', js ''LICENSE''])
       \<and> missingFiles [js ''README.md'', js ''LICENSE''] = [js ''CONTRIBUTING.md'']"
proof
  show "checkDocumentation e d = ([], Inr [js ''README.md'', js ''LICENSE''])"
    using assms by (simp add: checkDocumentation_def REQUIRED_FILES_def)
  show "missingFiles [js ''README.md'', js ''LICENSE''] = [js ''CONTRIBUTING.md'']"
    by (simp add: missingFiles_def REQUIRED_FILES_def js_def)
qed

theorem readme_and_license_present_witness:
  "checkDocumentation
     (exampleEnv [js ''pkg/README.md'', js ''pkg/LICENSE''] Nullish (\<lambda>c. Succeeded []))
     (js ''pkg'') = ([], Inr [js ''README.md'', js ''LICENSE''])
   \<and> missingFiles [js ''README.md'', js ''LICENSE''] = [js ''CONTRIBUTING.md'']"
proof -
  let ?e = "exampleEnv [js ''pkg/README.md'', js ''pkg/LICENSE''] Nullish (\<lambda>c. Succeeded [])"
  have 1: "existsSync ?e (js ''pkg'' @ js ''/'' @ js ''README.md'')"
    by (simp add: exampleEnv_def js_def)
  have 2: "existsSync ?e (js ''pkg'' @ js ''/'' @ js ''LICENSE'')"
    by (simp add: exampleEnv_def js_def)
  have 3: "\<not> existsSync ?e (js ''pkg'' @ js ''/'' @ js ''CONTRIBUTING.md'')"
    by (simp add: exampleEnv_def js_def)
  have 4: "\<not> existsSync ?e (js ''pkg'' @ js ''/pubspec.yaml'')"
    by (simp add: exampleEnv_def js_def)
  show ?thesis by (rule readme_and_license_present[OF 1 2 3 4])
qed

text \<open>
  C9. Whenever \<open>checkDocumentation\<close> returns, its list is a subsequence of
  \<open>REQUIRED_FILES\<close> in that order, without duplicates and of length at most 3; the
  order of the file system plays no part, since only \<open>existsSync\<close> is consulted. It
  fails to return only when a manifest exists (and cannot be read or loaded).
\<close>

theorem found_files_ordered_sublist:
  "(case snd (checkDocumentation e d) of
      Inr foundFiles \<Rightarrow>
        subseq foundFiles REQUIRED_FILES \<and> distinct foundFiles \<and> length foundFiles \<le> 3
        \<and> foundFiles = filter (\<lambda>file. existsSync e (d @ js ''/'' @ file)) REQUIRED_FILES
    | Inl f \<Rightarrow> existsSync e (d @ js ''/pubspec.yaml''))"
proof -
  let ?found = "filter (\<lambda>file. existsSync e (d @ js ''/'' @ file)) REQUIRED_FILES"
  have "subseq ?found REQUIRED_FILES" by simp
  moreover have "distinct ?found" using REQUIRED_FILES_distinct by simp
  moreover have "length ?found \<le> 3"
    using length_filter_le[of _ REQUIRED_FILES]
    by (simp add: REQUIRED_FILES_def del: length_filter_le)
  ultimately show ?thesis
    using checkDocumentation_cases[of e d] by (auto split: sum.splits)
qed

theorem found_files_ordered_sublist_witness:
  "snd (checkDocumentation
     (exampleEnv [js ''pkg/LICENSE'', js ''pkg/README.md''] Nullish (\<lambda>c. Succeeded []))
     (js ''pkg'')) = Inr [js ''README.md'', js ''LICENSE'']
   \<and> subseq [js ''README.md'', js ''LICENSE''] REQUIRED_FILES"
proof -
  let ?e = "exampleEnv [js ''pkg/LICENSE'', js ''pkg/README.md''] Nullish (\<lambda>c. Succeeded [])"
  have 1: "\<not> existsSync ?e (js ''pkg'' @ js ''/pubspec.yaml'')"
    by (simp add: exampleEnv_def js_def)
  have 2: "filter (\<lambda>file. existsSync ?e (js ''pkg'' @ js ''/'' @ file)) REQUIRED_FILES
      = [js ''README.md'', js ''LICENSE'']"
    by (simp add: exampleEnv_def REQUIRED_FILES_def js_def)
  show ?thesis
    using found_files_ordered_sublist[of ?e "js ''pkg''"] 1 2
    by (auto split: sum.splits)
qed

section \<open>The outdated-package counter\<close>

lemma countUpgradable_filter:
  "countUpgradable ls n = n + length (filter (\<lambda>l. trim l \<noteq> [] \<and> 42 \<in> set (trim l)) ls)"
proof (induction ls arbitrary: n)
  case Nil
  show ?case by simp
next
  case (Cons l ls)
  have "trim (trim l) \<noteq> []" if "42 \<in> set (trim l)"
    using mem_trim[OF that star_not_white] by auto
  then show ?case using Cons.IH by (auto simp: includesStr_single Let_def)
qed

text \<open>
  C2. \<open>parseOutdatedPackagesOutput\<close> returns the number of lines of the trimmed text
  (the pieces between line feeds) that, once trimmed themselves, are not empty and
  contain \<open>*\<close>, code unit 42.
\<close>

theorem outdated_count:
  "parseOutdatedPackagesOutput output =
     length (filter (\<lambda>l. trim l \<noteq> [] \<and> 42 \<in> set (trim l)) (splitOn 10 (trim output)))"
  by (simp add: parseOutdatedPackagesOutput_def countUpgradable_filter)

theorem outdated_count_witness:
  "parseOutdatedPackagesOutput (js '' a  *1.0'' @ [10, 10] @ js ''  *b '' @ [10] @ js ''c'' @ [10]) = 2"
  unfolding outdated_count by (simp add: js_def trim_def isWhiteSpace_def)

section \<open>The unsupported-package extractor\<close>

lemma notSupportedPhrase_head: "notSupportedPhrase = 32 # tl notSupportedPhrase"
  by (simp add: notSupportedPhrase_def js_def)

lemma digit_not_space: "isDigit c \<Longrightarrow> c \<noteq> 32"
  by (auto simp: isDigit_def)

lemma matchAt_notSupportedRe:
  "matchAt False notSupportedRe s =
     (if numberedAt False notSupportedPhrase s
      then Some (drop (length notSupportedPhrase) (dropWhile isDigit s), Some (takeWhile isDigit s))
      else None)"
proof -
  have rej: "ends False (chars notSupportedPhrase) (c # cs, cap') = []" if "accepts False Digit c"
    for c cs cap'
    using that digit_not_space[of c]
    by (subst notSupportedPhrase_head) (simp add: ends_chars)
  have "ends False notSupportedRe (s, None) =
     (if takeWhile isDigit s = [] then []
      else ends False (chars notSupportedPhrase) (dropWhile isDigit s, Some (takeWhile isDigit s)))"
    unfolding notSupportedRe_def
    using ends_Group_Plus_then[of False Digit "chars notSupportedPhrase" s None, OF rej]
    by (simp add: accepts_Digit)
  then show ?thesis
    by (simp add: matchAt_def numberedAt_def ends_chars)
qed

text \<open>What \<open>numberedAt\<close> says, for a phrase that does not begin with a digit.\<close>

lemma numberedAt_iff:
  assumes "phrase \<noteq> []" "\<not> isDigit (hd phrase)"
  shows "numberedAt False phrase s =
     (\<exists>ds post. ds \<noteq> [] \<and> list_all isDigit ds \<and> s = ds @ phrase @ post)"
proof
  assume "numberedAt False phrase s"
  then have 1: "takeWhile isDigit s \<noteq> []" and 2: "prefix phrase (dropWhile isDigit s)"
    by (simp_all add: numberedAt_def litPrefix_False)
  from 2 obtain post where "dropWhile isDigit s = phrase @ post" by (auto simp: prefix_def)
  then have "s = takeWhile isDigit s @ phrase @ post"
    by (metis takeWhile_dropWhile_id)
  moreover have "list_all isDigit (takeWhile isDigit s)"
    by (simp add: list_all_iff) (meson set_takeWhileD)
  ultimately show "\<exists>ds post. ds \<noteq> [] \<and> list_all isDigit ds \<and> s = ds @ phrase @ post"
    using 1 by blast
next
  assume "\<exists>ds post. ds \<noteq> [] \<and> list_all isDigit ds \<and> s = ds @ phrase @ post"
  then obtain ds post where d: "ds \<noteq> []" "list_all isDigit ds" "s = ds @ phrase @ post"
    by blast
  have h: "phrase @ post = [] \<or> \<not> isDigit (hd (phrase @ post))"
    using assms by simp
  show "numberedAt False phrase s"
    unfolding numberedAt_def d(3)
    using d(1) by (simp add: takeWhile_run[OF d(2) h] dropWhile_run[OF d(2) h] litPrefix_False)
qed

lemma count_at_first_match:
  assumes "input = pre @ ds @ notSupportedPhrase @ post" "ds \<noteq> []" "list_all isDigit ds"
    and "\<forall>i<length pre. \<not> numberedAt False notSupportedPhrase (drop i input)"
  shows "countNotSupportedPackages (Str input) = Inr (numberValue (decimal ds))"
proof -
  have h: "notSupportedPhrase @ post = [] \<or> \<not> isDigit (hd (notSupportedPhrase @ post))"
    by (subst notSupportedPhrase_head) (simp add: isDigit_def)
  have here: "drop (length pre) input = ds @ notSupportedPhrase @ post"
    using assms(1) by simp
  have tw: "takeWhile isDigit (ds @ notSupportedPhrase @ post) = ds"
    and dw: "dropWhile isDigit (ds @ notSupportedPhrase @ post) = notSupportedPhrase @ post"
    using assms(3) h by (simp_all add: takeWhile_run dropWhile_run)
  have m: "matchAt False notSupportedRe (drop (length pre) input) = Some (post, Some ds)"
    unfolding here matchAt_notSupportedRe numberedAt_def tw dw
    using assms(2) by (simp add: litPrefix_False)
  from assms(4) have none: "\<forall>i<length pre. matchAt False notSupportedRe (drop i input) = None"
    by (simp add: matchAt_notSupportedRe)
  have "length pre \<le> length input" using assms(1) by simp
  from exec_first[OF this none m]
  have "countNotSupportedPackages (Str input) = Inr (parseInt ds)"
    by (simp add: countNotSupportedPackages_def)
  then show ?thesis
    using assms(2,3) by (simp add: parseInt_digits)
qed

lemma count_without_match:
  assumes "\<forall>i<length input. \<not> numberedAt False notSupportedPhrase (drop i input)"
  shows "countNotSupportedPackages (Str input) = Inr (Fin 0)"
proof -
  have "\<not> numberedAt False notSupportedPhrase []" by (simp add: numberedAt_def)
  with assms have "\<forall>i\<le>length input. matchAt False notSupportedRe (drop i input) = None"
    by (simp add: matchAt_notSupportedRe le_less)
  from exec_none[OF this] show ?thesis
    by (simp add: countNotSupportedPackages_def)
qed

lemma exec_notSupportedRe_capture:
  "exec False notSupportedRe s = Some (m, cap) \<Longrightarrow>
   \<exists>ds. cap = Some ds \<and> ds \<noteq> [] \<and> list_all isDigit ds"
proof (induction s)
  case Nil
  then show ?case by (simp add: matchAt_notSupportedRe numberedAt_def)
next
  case (Cons c cs)
  show ?case
  proof (cases "numberedAt False notSupportedPhrase (c # cs)")
    case False
    with Cons show ?thesis by (simp add: matchAt_notSupportedRe)
  next
    case True
    with Cons.prems have "cap = Some (takeWhile isDigit (c # cs))"
      by (simp add: matchAt_notSupportedRe del: takeWhile.simps dropWhile.simps)
    moreover from True have "takeWhile isDigit (c # cs) \<noteq> []"
      by (simp add: numberedAt_def del: takeWhile.simps dropWhile.simps)
    moreover have "list_all isDigit (takeWhile isDigit (c # cs))"
      by (simp add: list_all_iff del: takeWhile.simps) (meson set_takeWhileD)
    ultimately show ?thesis by blast
  qed
qed

text \<open>
  C3, as amended. When the text reads a run of digits \<open>ds\<close> followed by
  \<open> packages doesn't support\<close> and no such reading begins further left,
  \<open>countNotSupportedPackages\<close> returns the Number value of \<open>ds\<close>, which is the integer
  itself when that is below \<open>2 ^ 53\<close>, whatever follows, further matches included; when
  the pattern occurs nowhere it returns 0.
\<close>

theorem first_match_only:
  "(input = pre @ ds @ notSupportedPhrase @ post \<and> ds \<noteq> [] \<and> list_all isDigit ds
      \<and> (\<forall>i<length pre. \<not> numberedAt False notSupportedPhrase (drop i input))
      \<longrightarrow> countNotSupportedPackages (Str input) = Inr (numberValue (decimal ds))
        \<and> (decimal ds < 2 ^ 53 \<longrightarrow> countNotSupportedPackages (Str input) = Inr (Fin (decimal ds))))
   \<and> ((\<forall>i<length input. \<not> numberedAt False notSupportedPhrase (drop i input))
      \<longrightarrow> countNotSupportedPackages (Str input) = Inr (Fin 0))"
  using count_at_first_match[of input pre ds post] count_without_match[of input]
  by (auto simp: numberValue_exact)

theorem first_match_only_witness:
  "countNotSupportedPackages
     (Str (js ''a '' @ js ''12'' @ notSupportedPhrase @ js '' web, 7'' @ notSupportedPhrase))
     = Inr (Fin 12)
   \<and> countNotSupportedPackages (Str (js ''ok'')) = Inr (Fin 0)"
proof -
  let ?post = "js '' web, 7'' @ notSupportedPhrase"
  let ?in = "js ''a '' @ js ''12'' @ notSupportedPhrase @ ?post"
  have pre: "\<forall>i<length (js ''a ''). \<not> numberedAt False notSupportedPhrase (drop i ?in)"
    by (simp add: js_def All_less_Suc numberedAt_def isDigit_def)
  have d: "decimal (js ''12'') = 12" by (simp add: decimal_def js_def)
  have ne: "js ''12'' \<noteq> []" and dg: "list_all isDigit (js ''12'')"
    by (simp_all add: js_def isDigit_def)
  have "countNotSupportedPackages (Str ?in) = Inr (numberValue (decimal (js ''12'')))
      \<and> (decimal (js ''12'') < 2 ^ 53
           \<longrightarrow> countNotSupportedPackages (Str ?in) = Inr (Fin (decimal (js ''12''))))"
    by (rule mp[OF conjunct1[OF first_match_only[of ?in "js ''a ''" "js ''12''" ?post]]])
       (intro conjI refl ne dg pre)
  then have a: "countNotSupportedPackages (Str ?in) = Inr (Fin 12)"
    unfolding d by (simp add: numberValue_exact)
  have no: "\<forall>i<length (js ''ok''). \<not> numberedAt False notSupportedPhrase (drop i (js ''ok''))"
    by (simp add: js_def All_less_Suc numberedAt_def isDigit_def)
  have b: "countNotSupportedPackages (Str (js ''ok'')) = Inr (Fin 0)"
    using first_match_only[of "js ''ok''"] no by blast
  show ?thesis using a b by simp
qed

theorem first_match_counterexample:
  "countNotSupportedPackages (Str (js ''9007199254740993'' @ notSupportedPhrase))
     = Inr (Fin 9007199254740992)
   \<and> decimal (js ''9007199254740993'') = 9007199254740993"
proof -
  have "list_all isDigit (js ''9007199254740993'')" by (simp add: js_def isDigit_def)
  from count_at_first_match[of _ "[]" "js ''9007199254740993''" "[]", OF _ _ this]
  have "countNotSupportedPackages (Str (js ''9007199254740993'' @ notSupportedPhrase))
     = Inr (numberValue (decimal (js ''9007199254740993'')))"
    by (simp add: js_def)
  then show ?thesis by (simp add: decimal_2_53_1 numberValue_2_53_1)
qed

section \<open>The issue-count extractor\<close>

lemma issuePlural_split: "issuePlural = js '' issue'' @ 115 # js '' found''"
  by (simp add: issuePlural_def js_def)

lemma issueSingular_split: "issueSingular = js '' issue'' @ js '' found''"
  by (simp add: issueSingular_def js_def)

lemma canonical_digit: "isDigit c \<Longrightarrow> canonicalize c = c"
  by (simp add: canonicalize_def isDigit_def)

lemma canonical_space: "(canonicalize c = 32) = (c = 32)"
  by (auto simp: canonicalize_def)

lemma matchAt_issuesFoundRe:
  "matchAt True issuesFoundRe s =
     (if numberedAt True issuePlural s
      then Some (drop (length issuePlural) (dropWhile isDigit s), Some (takeWhile isDigit s))
      else if numberedAt True issueSingular s
      then Some (drop (length issueSingular) (dropWhile isDigit s), Some (takeWhile isDigit s))
      else None)"
proof -
  let ?r = "Seq (chars (js '' issue'')) (Seq (Opt (Atom (Lit 115))) (chars (js '' found'')))"
  have rej: "ends True ?r (c # cs, cap') = []" if "accepts True Digit c" for c cs cap'
  proof -
    from that have "canonicalize c \<noteq> 32" by (auto simp: canonical_space isDigit_def)
    then have "\<not> litPrefix True (js '' issue'') (c # cs)" by (simp add: js_def canonicalize_def)
    then show ?thesis by (simp add: ends_chars)
  qed
  have e: "ends True issuesFoundRe (s, None) =
     (if takeWhile isDigit s = [] then []
      else ends True ?r (dropWhile isDigit s, Some (takeWhile isDigit s)))"
    unfolding issuesFoundRe_def
    using ends_Group_Plus_then[of True Digit ?r s None, OF rej]
    by (simp add: accepts_Digit)
  have r: "ends True ?r (u, cap) =
     (if litPrefix True issuePlural u then [(drop (length issuePlural) u, cap)] else [])
     @ (if litPrefix True issueSingular u then [(drop (length issueSingular) u, cap)] else [])"
    for u cap
  proof -
    have "ends True ?r (u, cap) =
       (if litPrefix True (js '' issue'') u
        then ends True (Seq (Opt (Atom (Lit 115))) (chars (js '' found'')))
               (drop (length (js '' issue'')) u, cap)
        else [])"
      by (simp add: ends_chars)
    then show ?thesis
      unfolding ends_Opt_Lit_then issuePlural_split issueSingular_split litPrefix_app
      by (simp add: js_def del: accepts.simps litPrefix.simps)
  qed
  show ?thesis
    unfolding matchAt_def e r numberedAt_def by simp
qed

lemma matchAt_issues_None: "(matchAt True issuesFoundRe s = None) = (\<not> issueAt s)"
  by (simp add: matchAt_issuesFoundRe issueAt_def)

lemma phrase_rejects_digit:
  assumes "isDigit d"
  shows "\<forall>p\<in>set issuePlural. \<not> accepts True (Lit p) d"
    and "\<forall>p\<in>set issueSingular. \<not> accepts True (Lit p) d"
  using assms
  by (simp_all add: issuePlural_def issueSingular_def js_def canonical_digit)
     (simp_all add: isDigit_def canonicalize_def)

lemma issueAt_in_gap:
  assumes "u \<noteq> []" "\<not> isDigit (last u)" "X = [] \<or> isDigit (hd X)"
  shows "issueAt (u @ X) = issueAt u"
proof -
  have mem: "last u \<in> set u" using assms(1) by simp
  have tw: "takeWhile isDigit (u @ X) = takeWhile isDigit u"
    using mem assms(2) by (rule takeWhile_append1)
  have dw: "dropWhile isDigit (u @ X) = dropWhile isDigit u @ X"
    using mem assms(2) by (rule dropWhile_append1)
  have "litPrefix True issuePlural (v @ X) = litPrefix True issuePlural v"
    and "litPrefix True issueSingular (v @ X) = litPrefix True issueSingular v" for v
    using assms(3) phrase_rejects_digit[of "hd X"]
    by (cases X; simp add: litPrefix_reject)+
  then show ?thesis
    by (simp add: issueAt_def numberedAt_def tw dw)
qed

lemma singular_not_plural:
  assumes "map canonicalize w = map canonicalize issueSingular"
  shows "\<not> litPrefix True issuePlural (w @ X)"
proof
  assume "litPrefix True issuePlural (w @ X)"
  from litPrefix_canonical[OF this]
  have "take 7 (map canonicalize (take (length issuePlural) (w @ X)))
      = take 7 (map canonicalize issuePlural)" by simp
  moreover have "length w = 12"
    using map_eq_imp_length_eq[OF assms] by (simp add: issueSingular_def js_def)
  ultimately have "take 7 (map canonicalize w) = take 7 (map canonicalize issuePlural)"
    by (simp add: take_map issuePlural_def js_def)
  with assms show False
    by (simp add: issuePlural_def issueSingular_def js_def canonicalize_def)
qed

lemma phrase_head:
  assumes "isIssuePhrase w"
  shows "w \<noteq> [] \<and> \<not> isDigit (hd w)"
proof -
  from assms have "map canonicalize w = 32 # tl (map canonicalize w)"
    by (auto simp: isIssuePhrase_def issuePlural_def issueSingular_def js_def canonicalize_def)
  then obtain c cs where "w = c # cs" "canonicalize c = 32"
    by (cases w) auto
  then show ?thesis by (auto simp: canonical_space isDigit_def)
qed

lemma matchAt_occurrence:
  assumes "ds \<noteq> []" "list_all isDigit ds" "isIssuePhrase w"
  shows "matchAt True issuesFoundRe ((ds @ w) @ X) = Some (X, Some ds)"
proof -
  have h: "w @ X = [] \<or> \<not> isDigit (hd (w @ X))"
    using phrase_head[OF assms(3)] by simp
  have tw: "takeWhile isDigit ((ds @ w) @ X) = ds"
    and dw: "dropWhile isDigit ((ds @ w) @ X) = w @ X"
    using takeWhile_run[OF assms(2) h] dropWhile_run[OF assms(2) h] by simp_all
  from assms(3) consider
      (plural) "map canonicalize w = map canonicalize issuePlural"
    | (singular) "map canonicalize w = map canonicalize issueSingular"
    by (auto simp: isIssuePhrase_def)
  then show ?thesis
  proof cases
    case plural
    then have "length w = length issuePlural" by (rule map_eq_imp_length_eq)
    with plural show ?thesis
      unfolding matchAt_issuesFoundRe numberedAt_def tw dw
      using assms(1) by (simp add: ci_phrase_prefix)
  next
    case singular
    then have "length w = length issueSingular" by (rule map_eq_imp_length_eq)
    with singular show ?thesis
      unfolding matchAt_issuesFoundRe numberedAt_def tw dw
      using assms(1) by (simp add: ci_phrase_prefix singular_not_plural)
  qed
qed

lemma issue_matches:
  "list_all wellPlaced occs \<Longrightarrow> noIssue rest \<Longrightarrow>
   matchesFrom True issuesFoundRe 0 (issueText occs rest) = map (\<lambda>(gap, ds, w). ds @ w) occs"
proof (induction occs)
  case Nil
  have "\<not> issueAt []" by (simp add: issueAt_def numberedAt_def)
  with Nil(2) have "\<forall>i\<le>length rest. matchAt True issuesFoundRe (drop i rest) = None"
    by (simp add: matchAt_issues_None noIssue_def le_less)
  then show ?case by (simp add: matchesFrom_none)
next
  case (Cons occ occs)
  obtain gap ds w where occ: "occ = (gap, ds, w)" by (cases occ) auto
  let ?X = "ds @ w @ issueText occs rest"
  from Cons.prems occ have wp: "noIssue gap" "gap = [] \<or> \<not> isDigit (last gap)"
    "ds \<noteq> []" "list_all isDigit ds" "isIssuePhrase w" by simp_all
  have hd: "?X = [] \<or> isDigit (hd ?X)"
    using wp(3,4) by (cases ds) simp_all
  have "\<forall>i<length gap. matchAt True issuesFoundRe (drop i gap @ ?X) = None"
  proof (intro allI impI)
    fix i assume i: "i < length gap"
    then have ne: "drop i gap \<noteq> []" by simp
    with wp(2) i have "\<not> isDigit (last (drop i gap))" by auto
    from issueAt_in_gap[OF ne this hd] wp(1) i
    show "matchAt True issuesFoundRe (drop i gap @ ?X) = None"
      by (simp add: matchAt_issues_None noIssue_def)
  qed
  from matchesFrom_gap[OF this]
  have "matchesFrom True issuesFoundRe 0 (issueText (occ # occs) rest)
      = matchesFrom True issuesFoundRe 0 ((ds @ w) @ issueText occs rest)"
    by (simp add: occ)
  also have "\<dots> = (ds @ w) # matchesFrom True issuesFoundRe 0 (issueText occs rest)"
    using matchAt_occurrence[OF wp(3,4,5)] wp(3) by (intro matchesFrom_hit) simp_all
  finally show ?case using Cons occ by simp
qed

lemma matchAt_digitsRe:
  "matchAt False digitsRe s =
     (if takeWhile isDigit s = [] then None else Some (dropWhile isDigit s, None))"
proof (cases s)
  case Nil
  then show ?thesis by (simp add: matchAt_def digitsRe_def)
next
  case (Cons c cs)
  show ?thesis
  proof (cases "isDigit c")
    case False
    with Cons show ?thesis by (simp add: matchAt_def digitsRe_def)
  next
    case True
    have "ends False digitsRe (s, None) = map (\<lambda>r. (r, None)) (backtracks isDigit cs)"
      using True Cons by (simp add: digitsRe_def ends_Star_Atom accepts_Digit)
    then show ?thesis
      using True Cons by (subst (asm) backtracks_hd) (simp add: matchAt_def)
  qed
qed

lemma exec_digitsRe_occurrence:
  assumes "ds \<noteq> []" "list_all isDigit ds" "isIssuePhrase w"
  shows "exec False digitsRe (ds @ w) = Some (ds, None)"
proof -
  have h: "w = [] \<or> \<not> isDigit (hd w)" using phrase_head[OF assms(3)] by simp
  have "matchAt False digitsRe (drop 0 (ds @ w)) = Some (w, None)"
    using assms(1) by (simp add: matchAt_digitsRe takeWhile_run[OF assms(2) h] dropWhile_run[OF assms(2) h])
  from exec_first[of 0 "ds @ w" False digitsRe w None] this show ?thesis by simp
qed

lemma exec_digitsRe_digits:
  "exec False digitsRe s = Some (m, cap) \<Longrightarrow> m \<noteq> [] \<and> list_all isDigit m"
proof (induction s)
  case Nil
  then show ?case by (simp add: matchAt_digitsRe)
next
  case (Cons c cs)
  show ?case
  proof (cases "takeWhile isDigit (c # cs) = []")
    case True
    with Cons show ?thesis by (simp add: matchAt_digitsRe)
  next
    case False
    let ?s = "c # cs"
    have "length ?s = length (takeWhile isDigit ?s) + length (dropWhile isDigit ?s)"
      by (metis length_append takeWhile_dropWhile_id)
    then have "take (length ?s - length (dropWhile isDigit ?s)) ?s = takeWhile isDigit ?s"
      by (simp add: takeWhile_eq_take[symmetric] del: takeWhile.simps dropWhile.simps)
    with False Cons.prems have "m = takeWhile isDigit ?s"
      by (simp add: matchAt_digitsRe del: takeWhile.simps dropWhile.simps)
    with False show ?thesis
      by (simp add: list_all_iff del: takeWhile.simps) (meson set_takeWhileD)
  qed
qed

text \<open>The total, as a sum of Numbers.\<close>

lemma issue_total_rounded:
  assumes "list_all wellPlaced occs" "noIssue rest"
  shows "getNumberOfAnalysisIssue (issueText occs rest) =
     foldl (\<lambda>total n. jsAdd total (numberValue n)) (Fin 0) (counts occs)"
proof -
  have step: "list_all wellPlaced occs \<Longrightarrow>
    foldl (\<lambda>totalIssues m.
             (case exec False digitsRe m of
                None \<Rightarrow> totalIssues
              | Some (countMatch0, cap) \<Rightarrow> jsAdd totalIssues (parseInt countMatch0)))
       acc (map (\<lambda>(gap, ds, w). ds @ w) occs)
    = foldl (\<lambda>total n. jsAdd total (numberValue n)) acc (counts occs)" for acc
  proof (induction occs arbitrary: acc)
    case Nil
    show ?case by simp
  next
    case (Cons occ occs)
    obtain gap ds w where occ: "occ = (gap, ds, w)" by (cases occ) auto
    with Cons.prems have wp: "ds \<noteq> []" "list_all isDigit ds" "isIssuePhrase w" by simp_all
    show ?case
      using Cons wp by (simp add: occ exec_digitsRe_occurrence parseInt_digits)
  qed
  show ?thesis
    unfolding getNumberOfAnalysisIssue_def matchGlobal_def issue_matches[OF assms]
    using step[OF assms(1), of "Fin 0"] by (cases occs) simp_all
qed

lemma foldl_exact:
  "acc + sum_list ns < 2 ^ 53 \<Longrightarrow>
   foldl (\<lambda>total n. jsAdd total (numberValue n)) (Fin acc) ns = Fin (acc + sum_list ns)"
proof (induction ns arbitrary: acc)
  case Nil
  show ?case by simp
next
  case (Cons n ns)
  then have "n < 2 ^ 53" "acc + n < 2 ^ 53" by simp_all
  then have "jsAdd (Fin acc) (numberValue n) = Fin (acc + n)"
    by (simp add: numberValue_exact)
  with Cons.IH[of "acc + n"] Cons.prems show ?case by (simp add: add.assoc)
qed

lemma noIssue_without_digits: "\<forall>c\<in>set g. \<not> isDigit c \<Longrightarrow> noIssue g"
proof -
  assume a: "\<forall>c\<in>set g. \<not> isDigit c"
  have "takeWhile isDigit (drop i g) = []" for i
  proof -
    have "\<forall>c\<in>set (drop i g). \<not> isDigit c" using a by (meson in_set_dropD)
    then show ?thesis by (cases "drop i g") simp_all
  qed
  then show ?thesis by (simp add: noIssue_def issueAt_def numberedAt_def)
qed

text \<open>
  C1, as amended. For a text made of \<open>k\<close> well-placed occurrences of
  \<open><n> issue(s) found\<close>, in any letter case, and of gaps and a remainder in which no
  occurrence begins, \<open>getNumberOfAnalysisIssue\<close> returns the sum of the \<open>k\<close> numbers
  whenever that sum is below \<open>2 ^ 53\<close>; with \<open>k = 0\<close>, a text without any occurrence
  gives 0.
\<close>

theorem issue_total:
  "list_all wellPlaced occs \<and> noIssue rest \<and> sum_list (counts occs) < 2 ^ 53
   \<longrightarrow> getNumberOfAnalysisIssue (issueText occs rest) = Fin (sum_list (counts occs))"
proof
  assume a: "list_all wellPlaced occs \<and> noIssue rest \<and> sum_list (counts occs) < 2 ^ 53"
  then have "getNumberOfAnalysisIssue (issueText occs rest) =
     foldl (\<lambda>total n. jsAdd total (numberValue n)) (Fin 0) (counts occs)"
    by (simp add: issue_total_rounded)
  also have "\<dots> = Fin (0 + sum_list (counts occs))"
    using a by (intro foldl_exact) simp
  finally show "getNumberOfAnalysisIssue (issueText occs rest) = Fin (sum_list (counts occs))"
    by simp
qed

theorem issue_total_witness:
  "getNumberOfAnalysisIssue (js ''info: 3 issues found and 1 Issue Found.'') = Fin 4
   \<and> getNumberOfAnalysisIssue (js ''No issues found!'') = Fin 0"
proof -
  let ?occs = "[(js ''info: '', js ''3'', js '' issues found''), (js '' and '', js ''1'', js '' Issue Found'')]"
  have t: "js ''info: 3 issues found and 1 Issue Found.'' = issueText ?occs (js ''.'')"
    by (simp add: js_def)
  have g1: "noIssue (js ''info: '')" and g2: "noIssue (js '' and '')" and g3: "noIssue (js ''.'')"
    and g4: "noIssue (js ''No issues found!'')"
    by (rule noIssue_without_digits, simp add: js_def isDigit_def)+
  have wp: "list_all wellPlaced ?occs"
    using g1 g2
    by (simp add: isIssuePhrase_def issuePlural_def issueSingular_def)
       (simp add: js_def isDigit_def canonicalize_def)
  have c: "counts ?occs = [3, 1]"
    by (simp add: decimal_def js_def)
  have a: "getNumberOfAnalysisIssue (js ''info: 3 issues found and 1 Issue Found.'') = Fin 4"
    using issue_total[of ?occs "js ''.''"] wp g3 unfolding t c by simp
  have b: "getNumberOfAnalysisIssue (js ''No issues found!'') = Fin 0"
    using issue_total[of "[]" "js ''No issues found!''"] g4 by simp
  show ?thesis using a b by simp
qed

theorem issue_total_counterexample:
  "getNumberOfAnalysisIssue (js ''9007199254740993 issues found'') = Fin 9007199254740992
   \<and> js ''9007199254740993 issues found''
       = issueText [([], js ''9007199254740993'', js '' issues found'')] []
   \<and> counts [([], js ''9007199254740993'', js '' issues found'')] = [9007199254740993]"
proof -
  let ?occs = "[([], js ''9007199254740993'', js '' issues found'')]"
  have t: "js ''9007199254740993 issues found'' = issueText ?occs []"
    by (simp add: js_def)
  have c: "counts ?occs = [9007199254740993]"
    by (simp add: decimal_2_53_1)
  have wp: "list_all wellPlaced ?occs"
    by (simp add: noIssue_def isIssuePhrase_def issuePlural_def) (simp add: js_def isDigit_def)
  have "noIssue []" by (simp add: noIssue_def)
  from issue_total_rounded[OF wp this]
  have "getNumberOfAnalysisIssue (issueText ?occs []) = Fin 9007199254740992"
    unfolding c by (simp add: numberValue_2_53_1 numberValue_2_53)
  with t c show ?thesis by simp
qed

section \<open>The formatted-file counter\<close>

lemma length_Changed: "length (js ''Changed'') = 7"
  by (simp add: js_def)

lemma length_dart: "length (js ''.dart'') = 5"
  by (simp add: js_def)

lemma matchAt_changedRe:
  "matchAt True changedRe s =
     (if litPrefix True (js ''Changed'') s
      then (case filter (litPrefix True (js ''.dart''))
                  (backtracks (\<lambda>c. \<not> isLineTerminator c) (drop 7 s)) of
              [] \<Rightarrow> None
            | r # rs \<Rightarrow> Some (drop 5 r, None))
      else None)"
proof -
  have "ends True changedRe (s, None) =
     (if litPrefix True (js ''Changed'') s
      then map (\<lambda>r. (drop (length (js ''.dart'')) r, None))
             (filter (litPrefix True (js ''.dart''))
                (backtracks (\<lambda>c. \<not> isLineTerminator c) (drop (length (js ''Changed'')) s)))
      else [])"
    unfolding changedRe_def
    by (simp add: ends_chars ends_Star_Atom accepts_Dot comp_def concat_map_if[symmetric])
  then show ?thesis
    unfolding length_Changed length_dart
    by (simp add: matchAt_def split: list.splits)
qed

lemma terminator_rejected:
  assumes "isLineTerminator t"
  shows "\<forall>p\<in>set (js ''.dart''). \<not> accepts True (Lit p) t"
    and "\<forall>p\<in>set (js ''Changed''). \<not> accepts True (Lit p) t"
  using assms by (auto simp: js_def isLineTerminator_def canonicalize_def)

lemma backtracks_line:
  "\<forall>c\<in>set u. \<not> isLineTerminator c \<Longrightarrow> isLineTerminator t \<Longrightarrow>
   backtracks (\<lambda>c. \<not> isLineTerminator c) (u @ t # rest)
     = map (\<lambda>r. r @ t # rest) (backtracks (\<lambda>c. \<not> isLineTerminator c) u)"
  by (induction u) simp_all

lemma noDart_drop: "noDart x \<Longrightarrow> noDart (drop k x)"
  by (simp add: noDart_def)

lemma noDart_no_match: "noDart x \<Longrightarrow> matchAt True changedRe (drop i x) = None"
proof -
  assume a: "noDart x"
  have "filter (litPrefix True (js ''.dart''))
          (backtracks (\<lambda>c. \<not> isLineTerminator c) (drop 7 (drop i x))) = []"
  proof (rule ccontr)
    assume "\<not> ?thesis"
    then obtain r where r: "r \<in> set (backtracks (\<lambda>c. \<not> isLineTerminator c) (drop 7 (drop i x)))"
      "litPrefix True (js ''.dart'') r"
      by (auto simp: filter_empty_conv)
    from backtracks_drop[OF r(1)] obtain j where "r = drop j (drop 7 (drop i x))" by blast
    then have "r = drop (j + 7 + i) x" by (simp add: add.commute add.left_commute)
    with a r(2) show False by (simp add: noDart_def)
  qed
  then show ?thesis by (simp add: matchAt_changedRe)
qed

lemma noDart_no_matches: "noDart x \<Longrightarrow> matchesFrom True changedRe 0 x = []"
  by (rule matchesFrom_none) (simp add: noDart_no_match)

lemma line_without_dart:
  "\<forall>c\<in>set v. \<not> isLineTerminator c \<Longrightarrow>
   filter (litPrefix True (js ''.dart'')) (backtracks (\<lambda>c. \<not> isLineTerminator c) v) = [] \<Longrightarrow>
   noDart v"
proof (induction v)
  case Nil
  show ?case by (simp add: noDart_def js_def)
next
  case (Cons c cs)
  from Cons.prems have 1: "\<not> litPrefix True (js ''.dart'') (c # cs)" and
    2: "filter (litPrefix True (js ''.dart'')) (backtracks (\<lambda>c. \<not> isLineTerminator c) cs) = []"
    by (simp_all split: if_splits)
  from Cons.IH[OF _ 2] Cons.prems(1) have 3: "noDart cs" by simp
  show ?case
    unfolding noDart_def
  proof
    fix i
    show "\<not> litPrefix True (js ''.dart'') (drop i (c # cs))"
      using 1 3 by (cases i) (simp_all add: noDart_def)
  qed
qed

lemma greedy_leaves_no_dart:
  "\<forall>c\<in>set v. \<not> isLineTerminator c \<Longrightarrow>
   filter (litPrefix True (js ''.dart'')) (backtracks (\<lambda>c. \<not> isLineTerminator c) v) = r # rs \<Longrightarrow>
   noDart (drop 5 r)"
proof (induction v arbitrary: r rs)
  case Nil
  then show ?case by (simp add: js_def)
next
  case (Cons c cs)
  let ?F = "filter (litPrefix True (js ''.dart'')) (backtracks (\<lambda>c. \<not> isLineTerminator c) cs)"
  show ?case
  proof (cases ?F)
    case Nil
    with Cons.prems have r: "r = c # cs" by (simp split: if_splits)
    from line_without_dart[OF _ Nil] Cons.prems(1) have "noDart cs" by simp
    then have "noDart (drop 4 cs)" by (rule noDart_drop)
    then show ?thesis by (simp add: r)
  next
    case (Cons r' rs')
    with Cons.prems have "?F = r # tl ?F" by (simp split: if_splits)
    from Cons.IH[OF _ this] Cons.prems(1) show ?thesis by simp
  qed
qed

lemma match_within_line:
  assumes u: "\<forall>c\<in>set u. \<not> isLineTerminator c" and t: "isLineTerminator t"
  shows "matchAt True changedRe (u @ t # rest)
     = map_option (\<lambda>(r, c). (r @ t # rest, c)) (matchAt True changedRe u)"
proof (cases "litPrefix True (js ''Changed'') u")
  case False
  then have "\<not> litPrefix True (js ''Changed'') (u @ t # rest)"
    using terminator_rejected(2)[OF t] by (simp add: litPrefix_reject)
  with False show ?thesis by (simp add: matchAt_changedRe)
next
  case True
  then have full: "litPrefix True (js ''Changed'') (u @ t # rest)"
    by (rule litPrefix_append)
  from litPrefix_length[OF True] have len: "7 \<le> length u" by (simp add: length_Changed)
  let ?nt = "\<lambda>c. \<not> isLineTerminator c"
  let ?dart = "litPrefix True (js ''.dart'')"
  have free: "\<forall>c\<in>set (drop 7 u). \<not> isLineTerminator c"
    using u by (meson in_set_dropD)
  have bt: "backtracks ?nt (drop 7 (u @ t # rest))
      = map (\<lambda>r. r @ t # rest) (backtracks ?nt (drop 7 u))"
    using len backtracks_line[OF free t] by simp
  have fl: "filter ?dart (backtracks ?nt (drop 7 (u @ t # rest)))
      = map (\<lambda>r. r @ t # rest) (filter ?dart (backtracks ?nt (drop 7 u)))"
    unfolding bt filter_map comp_def
    using terminator_rejected(1)[OF t] by (simp add: litPrefix_reject)
  show ?thesis
  proof (cases "filter ?dart (backtracks ?nt (drop 7 u))")
    case Nil
    with True full fl show ?thesis by (simp add: matchAt_changedRe)
  next
    case (Cons r rs)
    then have "r \<in> set (filter ?dart (backtracks ?nt (drop 7 u)))" by simp
    then have "?dart r" by simp
    from litPrefix_length[OF this] have "5 \<le> length r" by (simp add: length_dart)
    with True full fl Cons show ?thesis by (simp add: matchAt_changedRe)
  qed
qed

lemma terminator_no_match:
  assumes "isLineTerminator t"
  shows "matchAt True changedRe (t # rest) = None"
proof -
  have "litPrefix True (js ''Changed'') ([] @ t # rest) = litPrefix True (js ''Changed'') []"
    by (rule litPrefix_reject) (rule terminator_rejected(2)[OF assms])
  moreover have "\<not> litPrefix True (js ''Changed'') []" by (simp add: js_def)
  ultimately have "\<not> litPrefix True (js ''Changed'') (t # rest)" by simp
  then show ?thesis by (simp add: matchAt_changedRe)
qed

lemma match_leaves_no_dart:
  assumes "\<forall>c\<in>set l. \<not> isLineTerminator c" "matchAt True changedRe l = Some (r, cap)"
  shows "noDart r"
proof -
  let ?F = "filter (litPrefix True (js ''.dart'')) (backtracks (\<lambda>c. \<not> isLineTerminator c) (drop 7 l))"
  from assms(2) obtain r' rs where F: "?F = r' # rs" and r: "r = drop 5 r'"
    by (auto simp: matchAt_changedRe split: if_splits list.splits)
  have "\<forall>c\<in>set (drop 7 l). \<not> isLineTerminator c"
    using assms(1) by (meson in_set_dropD)
  from greedy_leaves_no_dart[OF this F] r show ?thesis by simp
qed

lemma match_consumes:
  assumes "matchAt True changedRe l = Some (r, cap)"
  shows "\<exists>m. m \<noteq> [] \<and> l = m @ r"
proof -
  from matchAt_suffix[OF assms] obtain m where m: "l = m @ r" by (auto simp: suffix_def)
  from assms have "litPrefix True (js ''Changed'') l"
    by (simp add: matchAt_changedRe split: if_splits)
  from litPrefix_length[OF this] have 1: "7 \<le> length l" by (simp add: length_Changed)
  from assms obtain r' where "r = drop 5 r'"
    "r' \<in> set (backtracks (\<lambda>c. \<not> isLineTerminator c) (drop 7 l))"
    by (auto simp: matchAt_changedRe split: if_splits list.splits)
       (metis filter_eq_ConsD in_set_conv_decomp)
  with backtracks_drop obtain j where "r = drop 5 (drop j (drop 7 l))" by blast
  then have "length r \<le> length l - 7" by simp
  with 1 have "length r < length l" by simp
  with m have "m \<noteq> []" by auto
  with m show ?thesis by blast
qed

lemma line_single_match:
  "\<forall>c\<in>set l. \<not> isLineTerminator c \<Longrightarrow> length (matchesFrom True changedRe 0 l) \<le> 1"
proof (induction l)
  case Nil
  show ?case by (simp add: matchAt_changedRe js_def)
next
  case (Cons c cs)
  show ?case
  proof (cases "matchAt True changedRe (c # cs)")
    case None
    with Cons show ?thesis by simp
  next
    case (Some st)
    obtain r cap where st: "st = (r, cap)" by (cases st) auto
    from match_consumes[OF Some[unfolded st]] obtain m where m: "m \<noteq> []" "c # cs = m @ r"
      by blast
    from match_leaves_no_dart[OF Cons.prems Some[unfolded st]] have nd: "noDart r" .
    have "matchesFrom True changedRe 0 (m @ r) = m # matchesFrom True changedRe 0 r"
      using Some m by (intro matchesFrom_hit[where cap=cap]) (simp_all add: st)
    with m nd show ?thesis by (simp add: noDart_no_matches)
  qed
qed

lemma matches_line_by_line:
  assumes u: "\<forall>c\<in>set u. \<not> isLineTerminator c" and t: "isLineTerminator t"
  shows "matchesFrom True changedRe 0 (u @ t # rest)
     = matchesFrom True changedRe 0 u @ matchesFrom True changedRe 0 rest"
  using u
proof (induction u)
  case Nil
  show ?case using terminator_no_match[OF t] by (simp add: matchAt_changedRe js_def)
next
  case (Cons c cs)
  show ?case
  proof (cases "matchAt True changedRe (c # cs)")
    case None
    then have "matchAt True changedRe ((c # cs) @ t # rest) = None"
      using match_within_line[OF Cons.prems t] by simp
    with None Cons show ?thesis by simp
  next
    case (Some st)
    obtain r cap where st: "st = (r, cap)" by (cases st) auto
    from match_consumes[OF Some[unfolded st]] obtain m where m: "m \<noteq> []" "c # cs = m @ r"
      by blast
    from match_leaves_no_dart[OF Cons.prems Some[unfolded st]] have nd: "noDart r" .
    have rfree: "\<forall>c\<in>set (drop i r). \<not> isLineTerminator c" for i
      using Cons.prems m(2) by (metis Un_iff in_set_dropD set_append)
    have whole: "matchAt True changedRe (m @ (r @ t # rest)) = Some (r @ t # rest, cap)"
      using match_within_line[OF Cons.prems t, of rest] Some st m(2) by simp
    have "\<forall>i<length r. matchAt True changedRe (drop i r @ t # rest) = None"
      using match_within_line[OF rfree t] noDart_no_match[OF nd] by simp
    from matchesFrom_gap[OF this]
    have after: "matchesFrom True changedRe 0 (r @ t # rest) = matchesFrom True changedRe 0 rest"
      using terminator_no_match[OF t] by simp
    have "matchesFrom True changedRe 0 (m @ r) = m # matchesFrom True changedRe 0 r"
      using Some m by (intro matchesFrom_hit[where cap=cap]) (simp_all add: st)
    then have left: "matchesFrom True changedRe 0 (c # cs) = [m]"
      using m nd by (simp add: noDart_no_matches)
    have "matchesFrom True changedRe 0 ((c # cs) @ t # rest)
        = m # matchesFrom True changedRe 0 (r @ t # rest)"
      using matchesFrom_hit[OF whole m(1)] m(2) by simp
    with after left show ?thesis by simp
  qed
qed

lemma jsLines_line: "\<forall>c\<in>set u. \<not> isLineTerminator c \<Longrightarrow> jsLines u = [u]"
  by (induction u) simp_all

lemma jsLines_split:
  "\<forall>c\<in>set u. \<not> isLineTerminator c \<Longrightarrow> isLineTerminator t \<Longrightarrow>
   jsLines (u @ t # rest) = u # jsLines rest"
  by (induction u) simp_all

lemma jsLines_free: "l \<in> set (jsLines s) \<Longrightarrow> \<forall>c\<in>set l. \<not> isLineTerminator c"
proof (induction s arbitrary: l)
  case Nil
  then show ?case by simp
next
  case (Cons c cs)
  show ?case
  proof (cases "isLineTerminator c")
    case True
    with Cons show ?thesis by auto
  next
    case False
    show ?thesis
    proof (cases "jsLines cs")
      case Nil
      with False Cons.prems show ?thesis by simp
    next
      case (Cons a as)
      then have "\<forall>c\<in>set a. \<not> isLineTerminator c" using Cons.IH[of a] by simp
      with False Cons Cons.prems Cons.IH show ?thesis by auto
    qed
  qed
qed

lemma matches_by_lines:
  "matchesFrom True changedRe 0 s = concat (map (matchesFrom True changedRe 0) (jsLines s))"
proof (induction s rule: length_induct)
  case (1 s)
  let ?u = "takeWhile (\<lambda>c. \<not> isLineTerminator c) s"
  have u: "\<forall>c\<in>set ?u. \<not> isLineTerminator c" by (auto dest: set_takeWhileD)
  show ?case
  proof (cases "dropWhile (\<lambda>c. \<not> isLineTerminator c) s")
    case Nil
    then have "s = ?u" by (metis append_Nil2 takeWhile_dropWhile_id)
    with u have "jsLines s = [s]" by (metis jsLines_line)
    then show ?thesis by simp
  next
    case (Cons t rest)
    then have t: "isLineTerminator t" by (metis hd_dropWhile list.discI list.sel(1))
    from Cons have s: "s = ?u @ t # rest" by (metis takeWhile_dropWhile_id)
    then have "length rest < length s"
      by (metis add_Suc_right length_Cons length_append less_add_Suc2)
    with 1 have ih: "matchesFrom True changedRe 0 rest
        = concat (map (matchesFrom True changedRe 0) (jsLines rest))" by blast
    have "matchesFrom True changedRe 0 (?u @ t # rest)
        = concat (map (matchesFrom True changedRe 0) (jsLines (?u @ t # rest)))"
      unfolding jsLines_split[OF u t] matches_line_by_line[OF u t] using ih by simp
    with s show ?thesis by simp
  qed
qed

lemma formattedFiles_count:
  "(case formattedFiles s of None \<Rightarrow> 0 | Some files \<Rightarrow> length files) = formattedCount s"
  by (simp add: formattedFiles_def matchGlobal_def formattedCount_def split: list.splits)

text \<open>
  C10. The matches of \<open>/Changed.*\.dart/gi\<close> in a text are those of its lines taken one
  by one, and a line holds at most one: the greedy \<open>.*\<close> runs to the last \<open>.dart\<close> of
  the line, so nothing after the match can match again. Hence the count never exceeds
  the number of lines.
\<close>

theorem one_match_per_line:
  "formattedCount s = sum_list (map formattedCount (jsLines s))
   \<and> (\<forall>l\<in>set (jsLines s). formattedCount l \<le> 1)
   \<and> formattedCount s \<le> length (jsLines s)"
proof -
  have 1: "formattedCount s = sum_list (map formattedCount (jsLines s))"
    unfolding formattedCount_def
    by (subst matches_by_lines) (simp add: length_concat comp_def)
  have 2: "\<forall>l\<in>set (jsLines s). formattedCount l \<le> 1"
    unfolding formattedCount_def using jsLines_free line_single_match by blast
  from 1 2 sum_list_le_length[of "jsLines s" formattedCount] show ?thesis by simp
qed

theorem one_match_per_line_witness:
  "formattedCount (js ''Changed a.dart Changed b.dart'') = 1"
proof -
  have "jsLines (js ''Changed a.dart Changed b.dart'') = [js ''Changed a.dart Changed b.dart'']"
    by (rule jsLines_line) (simp add: js_def isLineTerminator_def)
  with one_match_per_line[of "js ''Changed a.dart Changed b.dart''"]
  have "formattedCount (js ''Changed a.dart Changed b.dart'') \<le> 1" by simp
  moreover have "matchAt True changedRe (js ''Changed a.dart Changed b.dart'') = Some ([], None)"
    by (simp add: matchAt_changedRe) (simp add: js_def isLineTerminator_def canonicalize_def)
  then have "1 \<le> formattedCount (js ''Changed a.dart Changed b.dart'')"
    by (simp add: formattedCount_def js_def Let_def)
  ultimately show ?thesis by simp
qed

section \<open>The run as a whole\<close>

lemma main_ending:
  "ending (main e [d]) =
     (case snd (checkDocumentation e d) of
        Inl f \<Rightarrow> Threw f
      | Inr foundFiles \<Rightarrow>
          (case snd (analyseSupportedPlatforms e d) of Some f \<Rightarrow> Threw f | None \<Rightarrow> Returned))"
  by (simp add: main_def Let_def split: sum.splits option.splits)

lemma matchAt_changedRe_Nil: "matchAt True changedRe [] = None"
  by (simp add: matchAt_def changedRe_def js_def)

lemma formattedFiles_Nil: "formattedFiles [] = None"
  by (simp add: formattedFiles_def matchGlobal_def matchAt_changedRe_Nil)

lemma parseOutdated_Nil: "parseOutdatedPackagesOutput [] = 0"
  by (simp add: parseOutdatedPackagesOutput_def trim_def)

lemma missing_all:
  "join (js '', '') (missingFiles []) = js ''README.md, LICENSE, CONTRIBUTING.md''"
  by (simp add: missingFiles_def REQUIRED_FILES_def js_def)

lemma platforms_on_empty_output:
  "executeCommandSync e (js ''dart pub add will_it_run'') d = Str []
   \<Longrightarrow> analyseSupportedPlatforms e d = ([[Txt []]], None)"
  by (simp add: analyseSupportedPlatforms_def phraseResolving_def phraseAlready_def js_def)

text \<open>
  C7. With no argument or with two or more, the run writes the usage line to the error
  stream, nothing to the output stream, and calls \<open>process.exit(1)\<close>. With exactly one
  argument the first line written is the starting banner, and a run that no fault ends
  has status 0, whatever the checks reported.
\<close>

theorem argument_count:
  "(length args \<noteq> 1 \<longrightarrow>
      main e args = \<lparr>stdout = [], stderr = [msgUsage], ending = Exited 1\<rparr>
      \<and> exitStatus (ending (main e args)) = Some 1)
   \<and> (length args = 1 \<longrightarrow>
      (\<exists>rest. stdout (main e args) = msgStarting # rest)
      \<and> stderr (main e args) = []
      \<and> ((\<forall>f. ending (main e args) \<noteq> Threw f)
            \<longrightarrow> exitStatus (ending (main e args)) = Some 0))"
proof (cases args)
  case Nil
  then show ?thesis by (simp add: main_def)
next
  case (Cons a as)
  show ?thesis
  proof (cases as)
    case Nil
    with Cons show ?thesis
      by (simp add: main_def Let_def split: sum.splits option.splits)
  next
    case (Cons b bs)
    with \<open>args = a # as\<close> show ?thesis by (simp add: main_def)
  qed
qed

theorem argument_count_witness:
  "main spawnFails [] = \<lparr>stdout = [], stderr = [msgUsage], ending = Exited 1\<rparr>
   \<and> main spawnFails [js ''a'', js ''b''] = \<lparr>stdout = [], stderr = [msgUsage], ending = Exited 1\<rparr>
   \<and> (\<exists>rest. stdout (main (exampleEnv [] Nullish (\<lambda>c. Succeeded [])) [js ''pkg'']) = msgStarting # rest)
   \<and> exitStatus (ending (main (exampleEnv [] Nullish (\<lambda>c. Succeeded [])) [js ''pkg''])) = Some 0"
proof -
  let ?e = "exampleEnv [] Nullish (\<lambda>c. Succeeded [])"
  have doc: "snd (checkDocumentation ?e (js ''pkg'')) = Inr []"
    by (simp add: checkDocumentation_def exampleEnv_def REQUIRED_FILES_def)
  have "executeCommandSync ?e (js ''dart pub add will_it_run'') (js ''pkg'') = Str []"
    by (simp add: executeCommandSync_def exampleEnv_def)
  then have "snd (analyseSupportedPlatforms ?e (js ''pkg'')) = None"
    by (simp add: platforms_on_empty_output)
  with doc have fin: "ending (main ?e [js ''pkg'']) = Returned"
    by (simp add: main_ending)
  show ?thesis
    using argument_count[of "[]" spawnFails] argument_count[of "[js ''a'', js ''b'']" spawnFails]
      argument_count[of "[js ''pkg'']" ?e] fin
    by simp
qed

text \<open>
  C8. In a directory with no manifest and none of the required files, when every
  command hands back the empty string, the run prints exactly: the banner, the first
  heading, 0 documentation files found, the three files as missing, the second heading,
  the generic analysis-error line, no files needed formatting, the third heading, all
  dependencies up to date, the fourth heading, the empty output of the add command
  (the platform loop is skipped), and the completion banner.
\<close>

theorem empty_run_report:
  assumes nofile: "\<And>file. file \<in> set REQUIRED_FILES \<Longrightarrow> \<not> existsSync e (d @ js ''/'' @ file)"
    and nomanifest: "\<not> existsSync e (d @ js ''/pubspec.yaml'')"
    and empty: "\<And>command. executeCommandSync e command d = Str []"
  shows "main e [d] =
    \<lparr>stdout =
       [msgStarting,
        [Txt (10 # js ''1. Checking required files and descriptions...'')],
        [Txt (js ''   Found ''), Num (Fin 0), Txt (js '' documentation files'')],
        [Txt (js ''   Missing documentation file(s): README.md, LICENSE, CONTRIBUTING.md.'')],
        [Txt (10 # js ''2. Analysing Flutter format and warnings...'')],
        msgAnalyzeEmpty,
        msgNoFormatting,
        [Txt (10 # js ''3. Analysing pubspec dependecies...'')],
        msgAllLatest,
        [Txt (10 # js ''4. Analysing supported platforms...'')],
        [Txt []],
        msgFinished],
     stderr = [], ending = Returned\<rparr>"
proof -
  have found: "pushFound e d REQUIRED_FILES [] = []"
    using nofile by (simp add: pushFound_filter)
  have doc: "checkDocumentation e d = ([], Inr [])"
    using nomanifest found by (simp add: checkDocumentation_def)
  have fmt: "runFlutterFormatAnalysis e d = [msgAnalyzeEmpty, msgNoFormatting]"
    by (simp add: runFlutterFormatAnalysis_def empty formattedFiles_Nil)
  have deps: "analysePubspecDependencies e d = [msgAllLatest]"
    by (simp add: analysePubspecDependencies_def empty parseOutdated_Nil)
  have plat: "analyseSupportedPlatforms e d = ([[Txt []]], None)"
    by (simp add: platforms_on_empty_output empty)
  have miss: "missingFiles [] \<noteq> []"
    by (simp add: missingFiles_def REQUIRED_FILES_def)
  have line: "js ''   Missing documentation file(s): '' @ join (js '', '') (missingFiles []) @ js ''.''
      = js ''   Missing documentation file(s): README.md, LICENSE, CONTRIBUTING.md.''"
    unfolding missing_all by (simp add: js_def)
  show ?thesis
    unfolding main_def by (simp add: doc fmt deps plat miss line del: append.simps)
qed

theorem empty_run_report_witness:
  "stdout (main (exampleEnv [] Nullish (\<lambda>c. Failed (Some []) (Some []))) [js ''pkg'']) =
       [msgStarting,
        [Txt (10 # js ''1. Checking required files and descriptions...'')],
        [Txt (js ''   Found ''), Num (Fin 0), Txt (js '' documentation files'')],
        [Txt (js ''   Missing documentation file(s): README.md, LICENSE, CONTRIBUTING.md.'')],
        [Txt (10 # js ''2. Analysing Flutter format and warnings...'')],
        msgAnalyzeEmpty,
        msgNoFormatting,
        [Txt (10 # js ''3. Analysing pubspec dependecies...'')],
        msgAllLatest,
        [Txt (10 # js ''4. Analysing supported platforms...'')],
        [Txt []],
        msgFinished]"
proof -
  let ?e = "exampleEnv [] Nullish (\<lambda>c. Failed (Some []) (Some []))"
  have 1: "\<not> existsSync ?e (js ''pkg'' @ js ''/'' @ f)" for f
    by (simp add: exampleEnv_def)
  have 2: "\<not> existsSync ?e (js ''pkg'' @ js ''/pubspec.yaml'')"
    by (simp add: exampleEnv_def)
  have 3: "executeCommandSync ?e command (js ''pkg'') = Str []" for command
    by (simp add: executeCommandSync_def exampleEnv_def)
  show ?thesis
    by (subst empty_run_report[of ?e "js ''pkg''", OF 1 2 3]) simp
qed

text \<open>
  C6 (what the code does). The command runner itself never raises: it hands back the
  error's \<open>stderr\<close>, which is \<open>null\<close> when the command could not be spawned.
  \<open>runFlutterFormatAnalysis\<close> and \<open>analysePubspecDependencies\<close> test for \<open>null\<close>;
  \<open>analyseSupportedPlatforms\<close> does not, so on a directory that does not exist the run
  ends with a TypeError and never prints the completion banner.
\<close>

theorem spawn_failure_ends_run:
  "executeCommandSync spawnFails (js ''dart pub add will_it_run'') (js ''nowhere'') = Null
   \<and> ending (main spawnFails [js ''nowhere'']) = Threw TypeError
   \<and> msgFinished \<notin> set (stdout (main spawnFails [js ''nowhere'']))"
proof -
  have doc: "checkDocumentation spawnFails (js ''nowhere'') = ([], Inr [])"
    by (simp add: checkDocumentation_def spawnFails_def exampleEnv_def REQUIRED_FILES_def)
  have ex: "\<And>c. executeCommandSync spawnFails c (js ''nowhere'') = Null"
    by (simp add: executeCommandSync_def spawnFails_def exampleEnv_def)
  have plat: "analyseSupportedPlatforms spawnFails (js ''nowhere'') = ([], Some TypeError)"
    by (simp add: analyseSupportedPlatforms_def ex)
  have fmt: "runFlutterFormatAnalysis spawnFails (js ''nowhere'') = [msgAnalyzeNull]"
    by (simp add: runFlutterFormatAnalysis_def ex)
  have deps: "analysePubspecDependencies spawnFails (js ''nowhere'') = []"
    by (simp add: analysePubspecDependencies_def ex)
  have run: "main spawnFails [js ''nowhere''] =
      \<lparr>stdout = [msgStarting, [Txt (10 # js ''1. Checking required files and descriptions...'')],
         [Txt (js ''   Found ''), Num (Fin 0), Txt (js '' documentation files'')],
         [Txt (js ''   Missing documentation file(s): '' @ join (js '', '') (missingFiles []) @ js ''.'')],
         [Txt (10 # js ''2. Analysing Flutter format and warnings...'')],
         msgAnalyzeNull,
         [Txt (10 # js ''3. Analysing pubspec dependecies...'')],
         [Txt (10 # js ''4. Analysing supported platforms...'')]],
       stderr = [], ending = Threw TypeError\<rparr>"
    unfolding main_def
    by (simp add: doc fmt deps plat missingFiles_def REQUIRED_FILES_def)
  have "msgFinished \<notin> set (stdout (main spawnFails [js ''nowhere'']))"
    unfolding run by (simp add: msgFinished_def msgStarting_def msgAnalyzeNull_def js_def)
  then show ?thesis by (simp add: ex run)
qed

text \<open>
  When no command is left without its \<open>stderr\<close> and the documentation check returns,
  the run does end normally, with the completion banner as its last line.
\<close>

lemma platformLoop_no_fault:
  assumes "\<And>command. executeCommandSync e command d \<noteq> Null"
  shows "snd (platformLoop e d oss) = None"
proof (induction oss)
  case Nil
  show ?case by simp
next
  case (Cons os oss)
  obtain t where "executeCommandSync e (js ''dart run will_it_run:'' @ os) d = Str t"
    using assms[of "js ''dart run will_it_run:'' @ os"] by (cases "executeCommandSync e (js ''dart run will_it_run:'' @ os) d") auto
  with Cons show ?case
    by (simp add: countNotSupportedPackages_def Let_def split: option.splits prod.splits)
qed

lemma run_completes:
  assumes "\<And>command. executeCommandSync e command d \<noteq> Null"
    and "snd (checkDocumentation e d) = Inr foundFiles"
  shows "ending (main e [d]) = Returned \<and> last (stdout (main e [d])) = msgFinished"
proof -
  obtain t where t: "executeCommandSync e (js ''dart pub add will_it_run'') d = Str t"
    using assms(1)[of "js ''dart pub add will_it_run''"]
    by (cases "executeCommandSync e (js ''dart pub add will_it_run'') d") auto
  have "snd (analyseSupportedPlatforms e d) = None"
    using platformLoop_no_fault[OF assms(1)] by (simp add: analyseSupportedPlatforms_def t)
  with assms(2) show ?thesis
    by (simp add: main_def Let_def)
qed

end
